theory Spec2Isabelle
  imports Main "HOL-Library.Monad_Syntax"
begin

section \<open>Text\<close>

text \<open>
  Python strings are modelled as HOL strings: lists of characters, one \<open>char\<close> per code
  point, for the code points below 256. The character classes of the source's regular
  expressions are ASCII ranges; they are written as membership in the literal alphabets.
\<close>

definition ascii_lower :: string where
  "ascii_lower = ''abcdefghijklmnopqrstuvwxyz''"

definition ascii_upper :: string where
  "ascii_upper = ''ABCDEFGHIJKLMNOPQRSTUVWXYZ''"

definition ascii_digit :: string where
  "ascii_digit = ''0123456789''"

text \<open>\<open>str.isspace\<close>, which \<open>str.strip()\<close> and the regex class \<open>\s\<close> use: below 256 these are
  TAB, LF, VT, FF, CR, FS, GS, RS, US, space, NEL and the no-break space.\<close>

definition is_space :: "char \<Rightarrow> bool" where
  "is_space c = (c \<in> set [CHR 0x09, CHR 0x0A, CHR 0x0B, CHR 0x0C, CHR 0x0D,
                           CHR 0x1C, CHR 0x1D, CHR 0x1E, CHR 0x1F, CHR 0x20,
                           CHR 0x85, CHR 0xA0])"

text \<open>\<open>str.lower()\<close>, one character at a time: \<open>A\<close>..\<open>Z\<close> go to \<open>a\<close>..\<open>z\<close>, and the capital
  letters of Latin-1 (0xC0..0xDE without the multiplication sign 0xD7) move up by 32.\<close>

definition lower_char :: "char \<Rightarrow> char" where
  "lower_char c =
     (case map_of (zip ascii_upper ascii_lower) c of
        Some d \<Rightarrow> d
      | None \<Rightarrow>
          if 192 \<le> (of_char c :: nat) \<and> (of_char c :: nat) \<le> 222 \<and> (of_char c :: nat) \<noteq> 215
          then char_of ((of_char c :: nat) + 32) else c)"

definition lower :: "string \<Rightarrow> string" where
  "lower s = map lower_char s"

text \<open>\<open>s.strip(chars)\<close> and \<open>s.strip()\<close>: drop the characters of the class at both ends.\<close>

definition strip_of :: "(char \<Rightarrow> bool) \<Rightarrow> string \<Rightarrow> string" where
  "strip_of P s = rev (dropWhile P (rev (dropWhile P s)))"

definition strip :: "string \<Rightarrow> string" where
  "strip s = strip_of is_space s"

text \<open>\<open>sep.join(xs)\<close>.\<close>

fun join :: "string \<Rightarrow> string list \<Rightarrow> string" where
  "join sep [] = []"
| "join sep [x] = x"
| "join sep (x # y # ys) = x @ sep @ join sep (y # ys)"

text \<open>
  \<open>re.sub(cls{m,}, repl, s)\<close> for a pattern that is one character class repeated at least
  \<open>m\<close> times (\<open>m \<ge> 1\<close>; \<open>+\<close> is \<open>{1,}\<close>): scanning from the left, the greedy match at a
  character of the class is the whole run of class characters that starts there; a run
  of at least \<open>m\<close> characters is replaced by \<open>repl\<close>, a shorter one is kept.
\<close>

function re_sub_run :: "(char \<Rightarrow> bool) \<Rightarrow> nat \<Rightarrow> string \<Rightarrow> string \<Rightarrow> string" where
  "re_sub_run cls m repl [] = []"
| "re_sub_run cls m repl (c # cs) =
     (if cls c then
        (if m \<le> length (takeWhile cls (c # cs))
         then repl @ re_sub_run cls m repl (dropWhile cls cs)
         else takeWhile cls (c # cs) @ re_sub_run cls m repl (dropWhile cls cs))
      else c # re_sub_run cls m repl cs)"
  by pat_completeness auto
termination
  by (relation "measure (\<lambda>(cls, m, repl, s). length s)")
     (auto simp: length_dropWhile_le less_Suc_eq_le)

section \<open>Regular expressions and \<open>re.fullmatch\<close>\<close>

text \<open>
  The domain check of the source is \<open>re.fullmatch\<close> against a regular expression. The
  expression is kept as data; \<open>fullmatch\<close> decides it by derivatives, and \<open>lang\<close> is the
  set of strings the expression denotes.
\<close>

datatype rexp =
    Zero
  | One
  | Cls "char \<Rightarrow> bool"
  | Alt rexp rexp
  | Seq rexp rexp
  | Star rexp

definition conc :: "string set \<Rightarrow> string set \<Rightarrow> string set" where
  "conc A B = {x @ y | x y. x \<in> A \<and> y \<in> B}"

inductive_set star :: "string set \<Rightarrow> string set" for A :: "string set" where
  star_nil: "[] \<in> star A"
| star_app: "x \<in> A \<Longrightarrow> y \<in> star A \<Longrightarrow> x @ y \<in> star A"

primrec lang :: "rexp \<Rightarrow> string set" where
  "lang Zero = {}"
| "lang One = {[]}"
| "lang (Cls P) = {[c] | c. P c}"
| "lang (Alt r s) = lang r \<union> lang s"
| "lang (Seq r s) = conc (lang r) (lang s)"
| "lang (Star r) = star (lang r)"

primrec nullable :: "rexp \<Rightarrow> bool" where
  "nullable Zero = False"
| "nullable One = True"
| "nullable (Cls P) = False"
| "nullable (Alt r s) = (nullable r \<or> nullable s)"
| "nullable (Seq r s) = (nullable r \<and> nullable s)"
| "nullable (Star r) = True"

primrec deriv :: "char \<Rightarrow> rexp \<Rightarrow> rexp" where
  "deriv c Zero = Zero"
| "deriv c One = Zero"
| "deriv c (Cls P) = (if P c then One else Zero)"
| "deriv c (Alt r s) = Alt (deriv c r) (deriv c s)"
| "deriv c (Seq r s) =
     (if nullable r then Alt (Seq (deriv c r) s) (deriv c s) else Seq (deriv c r) s)"
| "deriv c (Star r) = Seq (deriv c r) (Star r)"

primrec fullmatch :: "rexp \<Rightarrow> string \<Rightarrow> bool" where
  "fullmatch r [] = nullable r"
| "fullmatch r (c # cs) = fullmatch (deriv c r) cs"

text \<open>\<open>r+\<close> and \<open>r{2,}\<close>.\<close>

definition Plus :: "rexp \<Rightarrow> rexp" where
  "Plus r = Seq r (Star r)"

definition AtLeast2 :: "rexp \<Rightarrow> rexp" where
  "AtLeast2 r = Seq r (Seq r (Star r))"

text \<open>The classes \<open>[a-zA-Z0-9.-]\<close> and \<open>[a-zA-Z]\<close> and the literal \<open>\.\<close>.\<close>

definition domain_char :: "char \<Rightarrow> bool" where
  "domain_char c = (c \<in> set (ascii_lower @ ascii_upper @ ascii_digit @ ''.-''))"

definition alpha_char :: "char \<Rightarrow> bool" where
  "alpha_char c = (c \<in> set (ascii_lower @ ascii_upper))"

definition dot_char :: "char \<Rightarrow> bool" where
  "dot_char c = (c = CHR ''.'')"

text \<open>\<open>[a-zA-Z0-9.-]+\.[a-zA-Z]{2,}\<close>, line 295.\<close>

definition domain_re :: rexp where
  "domain_re = Seq (Plus (Cls domain_char)) (Seq (Cls dot_char) (AtLeast2 (Cls alpha_char)))"

definition domain_ok :: "string \<Rightarrow> bool" where
  "domain_ok d = fullmatch domain_re d"

section \<open>Module-level functions of \<open>generator.py\<close>\<close>

definition DEFAULT_DOMAINS :: "string list" where
  "DEFAULT_DOMAINS = [''gmail.com'', ''example.org'', ''example.net'']"

definition PATTERNS :: "string list" where
  "PATTERNS =
     [''{first}.{last}'',
      ''{first}{last}'',
      ''{f}{last}'',
      ''{first}{l}'',
      ''{last}.{first}'',
      ''{first}_{last}'',
      ''{first}-{last}'',
      ''{first}.{last}{n2}'',
      ''{first}{last}{n3}'']"

text \<open>The class \<open>[a-z0-9]\<close> of \<open>slug\<close>.\<close>

definition slug_char :: "char \<Rightarrow> bool" where
  "slug_char c = (c \<in> set (ascii_lower @ ascii_digit))"

definition slug :: "string \<Rightarrow> string" where
  "slug s = re_sub_run (\<lambda>c. \<not> slug_char c) 1 [] (lower (strip s))"

text \<open>\<open>re.split(cls+, s)\<close>: the pieces between the runs of class characters; a run at
  either end leaves an empty piece there.\<close>

function re_split_run :: "(char \<Rightarrow> bool) \<Rightarrow> string \<Rightarrow> string list" where
  "re_split_run cls s =
     (case dropWhile (\<lambda>c. \<not> cls c) s of
        [] \<Rightarrow> [s]
      | c # r \<Rightarrow> takeWhile (\<lambda>c. \<not> cls c) s # re_split_run cls (dropWhile cls r))"
  by pat_completeness auto
termination
proof (relation "measure (\<lambda>(cls, s). length s)")
  show "wf (measure (\<lambda>(cls, s). length s))" by simp
next
  fix cls :: "char \<Rightarrow> bool" and s :: string and c r
  assume eq: "dropWhile (\<lambda>c. \<not> cls c) s = c # r"
  have "length (dropWhile cls r) \<le> length r" by (rule length_dropWhile_le)
  moreover have "length (c # r) \<le> length s"
    using length_dropWhile_le [of "\<lambda>c. \<not> cls c" s] by (simp only: eq)
  ultimately show "((cls, dropWhile cls r), (cls, s)) \<in> measure (\<lambda>(cls, s). length s)"
    by simp
qed

definition split_name :: "string \<Rightarrow> string option \<times> string option" where
  "split_name full =
     (let parts = filter (\<lambda>p. p \<noteq> []) (re_split_run is_space (strip full)) in
      if parts = [] then (None, None)
      else if length parts = 1 then (Some (hd parts), Some ''user'')
      else (Some (hd parts), Some (last parts)))"

definition normalize_name_line :: "string \<Rightarrow> string" where
  "normalize_name_line line = re_sub_run is_space 1 '' '' (strip line)"

section \<open>The random generator\<close>

text \<open>
  \<open>random.Random\<close> belongs to the Python library, not to this program. It enters the model
  as a parameter: a type \<open>'g\<close> of generator states, the state \<open>seeded s\<close> that
  \<open>random.Random(s)\<close> starts from for a string \<open>s\<close>, and \<open>randbelow g n\<close>, the library's
  \<open>_randbelow(n)\<close>: the number drawn and the state after the draw. \<open>choice\<close> and \<open>randint\<close>
  are the library's methods on top of it.
\<close>

record 'g random_lib =
  seeded :: "string \<Rightarrow> 'g"
  randbelow :: "'g \<Rightarrow> nat \<Rightarrow> nat \<times> 'g"

text \<open>What the library guarantees of \<open>_randbelow(n)\<close> for \<open>n > 0\<close>.\<close>

definition lib_ok :: "'g random_lib \<Rightarrow> bool" where
  "lib_ok lib = (\<forall>g n. 0 < n \<longrightarrow> fst (randbelow lib g n) < n)"

text \<open>\<open>rng.choice(seq)\<close>: IndexError on an empty sequence (and on an index out of range,
  which a generator with \<open>lib_ok\<close> never draws) is \<open>None\<close>.\<close>

definition choice :: "'g random_lib \<Rightarrow> 'g \<Rightarrow> 'a list \<Rightarrow> ('a \<times> 'g) option" where
  "choice lib g seq =
     (if seq = [] then None
      else let (i, g') = randbelow lib g (length seq)
           in if i < length seq then Some (seq ! i, g') else None)"

text \<open>\<open>rng.randint(a, b)\<close> is \<open>a + _randbelow(b - a + 1)\<close>.\<close>

definition randint :: "'g random_lib \<Rightarrow> 'g \<Rightarrow> nat \<Rightarrow> nat \<Rightarrow> nat \<times> 'g" where
  "randint lib g a b = (let (r, g') = randbelow lib g (b - a + 1) in (a + r, g'))"

section \<open>Formatting\<close>

text \<open>\<open>str(n)\<close> for \<open>n \<ge> 0\<close>, and the format specifications \<open>02d\<close> and \<open>03d\<close>: decimal digits,
  padded with zeros on the left up to the width.\<close>

definition digit_char :: "nat \<Rightarrow> char" where
  "digit_char d = ascii_digit ! (d mod 10)"

function str_nat :: "nat \<Rightarrow> string" where
  "str_nat n = (if n < 10 then [digit_char n] else str_nat (n div 10) @ [digit_char (n mod 10)])"
  by pat_completeness auto
termination
  by (relation "measure (\<lambda>n. n)") auto

definition zero_pad :: "nat \<Rightarrow> nat \<Rightarrow> string" where
  "zero_pad w n = replicate (w - length (str_nat n)) (CHR ''0'') @ str_nat n"

text \<open>
  \<open>template.format(**kw)\<close> on the fragment the program uses: literal characters other
  than braces, and replacement fields \<open>{key}\<close>. A key that is not among the keyword
  arguments is Python's KeyError and an unbalanced brace its ValueError; both are
  \<open>None\<close>. Every member of \<open>PATTERNS\<close> lies in this fragment; escapes, conversions and
  format specifications inside a field are outside it.
\<close>

function str_format :: "string \<Rightarrow> (string \<times> string) list \<Rightarrow> string option" where
  "str_format [] kw = Some []"
| "str_format (c # cs) kw =
     (if c = CHR ''{'' then
        (case dropWhile (\<lambda>x. x \<noteq> CHR ''}'') cs of
           [] \<Rightarrow> None
         | b # rest \<Rightarrow>
             (case map_of kw (takeWhile (\<lambda>x. x \<noteq> CHR ''}'') cs) of
                None \<Rightarrow> None
              | Some v \<Rightarrow> map_option (\<lambda>t. v @ t) (str_format rest kw)))
      else if c = CHR ''}'' then None
      else map_option (\<lambda>t. c # t) (str_format cs kw))"
  by pat_completeness auto
termination
proof (relation "measure (\<lambda>(s, kw). length s)")
  show "wf (measure (\<lambda>(s, kw). length s))" by simp
next
  fix c :: char and cs :: string and kw :: "(string \<times> string) list" and b rest v
  assume eq: "dropWhile (\<lambda>x. x \<noteq> CHR ''}'') cs = b # rest"
  have "length (b # rest) \<le> length cs"
    using length_dropWhile_le [of "\<lambda>x. x \<noteq> CHR ''}''" cs] by (simp only: eq)
  then show "((rest, kw), (c # cs, kw)) \<in> measure (\<lambda>(s, kw). length s)"
    by simp
next
  fix c :: char and cs :: string and kw :: "(string \<times> string) list"
  show "((cs, kw), (c # cs, kw)) \<in> measure (\<lambda>(s, kw). length s)"
    by simp
qed

text \<open>\<open>render_pattern\<close>, lines 64 to 69. The result is the rendered text with the generator
  state after the two draws; \<open>None\<close> when \<open>format\<close> raises.\<close>

definition render_pattern ::
  "'g random_lib \<Rightarrow> string \<Rightarrow> string \<Rightarrow> string \<Rightarrow> 'g \<Rightarrow> (string \<times> 'g) option" where
  "render_pattern lib pat first last' g =
     (let f = take 1 first;
          l = take 1 last';
          (x2, g1) = randint lib g 0 99;
          n2 = zero_pad 2 x2;
          (x3, g2) = randint lib g1 0 999;
          n3 = zero_pad 3 x3
      in map_option (\<lambda>t. (t, g2))
           (str_format pat [(''first'', first), (''last'', last'), (''f'', f), (''l'', l),
                         (''n2'', n2), (''n3'', n3)]))"

section \<open>The application\<close>

text \<open>
  The state of \<open>App\<close> that \<open>generate_emails\<close> reads and writes: the entry fields and check
  boxes, the two text widgets (each field holds what \<open>widget.get("1.0", "end")\<close> returns),
  the rows kept for export and the output widget. \<open>pattern_vars\<close> pairs each pattern with
  its check box, as \<open>_build_ui\<close> fills it.
\<close>

record row =
  name :: string
  email :: string
  domain :: string
  pattern :: string
  username :: string

record app =
  email_seed_var :: string
  count_var :: string
  unique_var :: bool
  lower_var :: bool
  pattern_vars :: "(string \<times> bool) list"
  names_text :: string
  domains_text :: string
  last_rows :: "row list"
  out :: string

text \<open>A message box: its kind, title and text.\<close>

datatype dialog = ShowError string string | ShowWarning string string

text \<open>\<open>str.splitlines()\<close>: the line boundaries below 256 are LF, CR, CR LF, VT, FF, FS, GS,
  RS and NEL; a boundary at the very end opens no further line.\<close>

definition is_linebreak :: "char \<Rightarrow> bool" where
  "is_linebreak c = (c \<in> set [CHR 0x0A, CHR 0x0D, CHR 0x0B, CHR 0x0C,
                               CHR 0x1C, CHR 0x1D, CHR 0x1E, CHR 0x85])"

function splitlines :: "string \<Rightarrow> string list" where
  "splitlines [] = []"
| "splitlines (x # xs) =
     (case dropWhile (\<lambda>c. \<not> is_linebreak c) (x # xs) of
        [] \<Rightarrow> [x # xs]
      | c # r \<Rightarrow>
          takeWhile (\<lambda>c. \<not> is_linebreak c) (x # xs)
          # splitlines (if c = CHR 0x0D \<and> take 1 r = [CHR 0x0A] then drop 1 r else r))"
  by pat_completeness auto
termination
proof (relation "measure length")
  show "wf (measure length)" by simp
next
  fix x :: char and xs :: string and c r
  assume eq: "dropWhile (\<lambda>c. \<not> is_linebreak c) (x # xs) = c # r"
  have "length (c # r) \<le> length (x # xs)"
    using length_dropWhile_le [of "\<lambda>c. \<not> is_linebreak c" "x # xs"] by (simp only: eq)
  then show "((if c = CHR 0x0D \<and> take 1 r = [CHR 0x0A] then drop 1 r else r), x # xs)
      \<in> measure length"
    by (cases r) auto
qed

text \<open>\<open>_read_lines\<close>, lines 213 to 215.\<close>

definition read_lines :: "string \<Rightarrow> string list" where
  "read_lines text =
     map normalize_name_line
       (filter (\<lambda>ln. normalize_name_line ln \<noteq> []) (splitlines text))"

text \<open>\<open>_rng_from_seed\<close>, lines 217 to 219. \<open>random.Random(None)\<close> seeds itself from the
  operating system; \<open>entropy\<close> is the generator state that comes out of that in this run.\<close>

definition rng_from_seed :: "'g random_lib \<Rightarrow> 'g \<Rightarrow> string \<Rightarrow> 'g" where
  "rng_from_seed lib entropy seed_value =
     (let seed_value = strip seed_value
      in if seed_value \<noteq> [] then seeded lib seed_value else entropy)"

text \<open>
  \<open>int(s)\<close> on a string: white space around the number is ignored, a sign may come first,
  then decimal digits, where single underscores may stand between digits. Anything else
  is a ValueError, \<open>None\<close> here, and so is a number of more than 4300 digits (the
  interpreter's limit for the conversion of a string, leading zeros counted).
\<close>

definition is_digit :: "char \<Rightarrow> bool" where
  "is_digit c = (c \<in> set ascii_digit)"

definition digit_val :: "char \<Rightarrow> nat" where
  "digit_val c = length (takeWhile (\<lambda>d. d \<noteq> c) ascii_digit)"

fun int_digits :: "nat \<Rightarrow> string \<Rightarrow> nat option" where
  "int_digits acc [] = Some acc"
| "int_digits acc (c # cs) =
     (if is_digit c then int_digits (10 * acc + digit_val c) cs
      else if c = CHR ''_'' \<and> cs \<noteq> [] \<and> is_digit (hd cs) then int_digits acc cs
      else None)"

definition max_str_digits :: nat where
  "max_str_digits = 4300"

definition int_unsigned :: "string \<Rightarrow> nat option" where
  "int_unsigned s =
     (if s \<noteq> [] \<and> is_digit (hd s) \<and> length (filter is_digit s) \<le> max_str_digits
      then int_digits 0 s else None)"

definition py_int :: "string \<Rightarrow> int option" where
  "py_int s =
     (case strip s of
        [] \<Rightarrow> None
      | c # cs \<Rightarrow>
          if c = CHR ''-'' then map_option (\<lambda>n. - int n) (int_unsigned cs)
          else if c = CHR ''+'' then map_option int (int_unsigned cs)
          else map_option int (int_unsigned (c # cs)))"

text \<open>Lines 277 to 283: the count, or \<open>None\<close> where the \<open>except ValueError\<close> branch runs.\<close>

definition read_count :: "string \<Rightarrow> int option" where
  "read_count s =
     (case py_int (strip s) of
        None \<Rightarrow> None
      | Some n \<Rightarrow> if n \<le> 0 \<or> n > 200000 then None else Some n)"

text \<open>Lines 305 to 314: the parsed name pool, each entry with its display name.\<close>

definition parse_name :: "string \<Rightarrow> (string \<times> string \<times> string) list" where
  "parse_name full =
     (case split_name full of
        (Some first, Some last') \<Rightarrow>
          if first = [] \<or> last' = [] then []
          else if slug first \<noteq> [] \<and> slug last' \<noteq> [] then [(full, slug first, slug last')]
          else []
      | _ \<Rightarrow> [])"

definition build_name_pool :: "string list \<Rightarrow> (string \<times> string \<times> string) list" where
  "build_name_pool names = concat (map parse_name names)"

text \<open>
  Lines 333 to 339, the clean-up of a rendered username: the classes \<open>[^a-z0-9._-]\<close> and
  \<open>[._-]\<close>, the two substitutions, the \<open>strip\<close>, and the test that sends the loop to its next
  round (\<open>None\<close>).
\<close>

definition user_char :: "char \<Rightarrow> bool" where
  "user_char c = (c \<in> set (ascii_lower @ ascii_digit @ ''._-''))"

definition sep_char :: "char \<Rightarrow> bool" where
  "sep_char c = (c \<in> set ''._-'')"

definition sanitize :: "bool \<Rightarrow> string \<Rightarrow> string option" where
  "sanitize lower_on u0 =
     (let u1 = (if lower_on then lower u0 else u0);
          u2 = re_sub_run (\<lambda>c. \<not> user_char c) 1 [] u1;
          u3 = strip_of sep_char (re_sub_run sep_char 2 ''.'' u2)
      in if u3 = [] \<or> length u3 < 3 then None else Some u3)"

text \<open>What the loop reads and does not change, and what it changes.\<close>

record batch =
  count :: int
  unique :: bool
  lowercase :: bool
  name_pool :: "(string \<times> string \<times> string) list"
  enabled_patterns :: "string list"
  domains :: "string list"

record 'g loop_state =
  rng :: 'g
  results :: "string list"
  rows :: "row list"
  seen :: "string set"
  tries :: int

definition max_tries :: "batch \<Rightarrow> int" where
  "max_tries b = count b * (if unique b then 10 else 2)"

text \<open>One round of the loop, lines 328 to 356. \<open>None\<close> is an exception leaving the loop.\<close>

definition attempt :: "'g random_lib \<Rightarrow> batch \<Rightarrow> 'g loop_state \<Rightarrow> 'g loop_state option" where
  "attempt lib b s =
     (let s1 = s\<lparr>tries := tries s + 1\<rparr> in
      case choice lib (rng s1) (name_pool b) of
        None \<Rightarrow> None
      | Some ((display_name, first, last'), g1) \<Rightarrow>
      case choice lib g1 (enabled_patterns b) of
        None \<Rightarrow> None
      | Some (pat, g2) \<Rightarrow>
      case render_pattern lib pat first last' g2 of
        None \<Rightarrow> None
      | Some (rendered, g3) \<Rightarrow>
      case sanitize (lowercase b) rendered of
        None \<Rightarrow> Some (s1\<lparr>rng := g3\<rparr>)
      | Some uname \<Rightarrow>
      case choice lib g3 (domains b) of
        None \<Rightarrow> None
      | Some (d, g4) \<Rightarrow>
          let dom = lower d;
              mail = uname @ ''@'' @ dom
          in if unique b \<and> mail \<in> seen s1 then Some (s1\<lparr>rng := g4\<rparr>)
             else Some (s1\<lparr>rng := g4,
                            seen := (if unique b then insert mail (seen s1) else seen s1),
                            results := results s1 @ [mail],
                            rows := rows s1 @ [\<lparr>name = display_name, email = mail, domain = dom,
                                                 pattern = pat, username = uname\<rparr>]\<rparr>))"

text \<open>The loop, line 327.\<close>

function gen_loop :: "'g random_lib \<Rightarrow> batch \<Rightarrow> 'g loop_state \<Rightarrow> 'g loop_state option" where
  "gen_loop lib b s =
     (if int (length (results s)) < count b \<and> tries s < max_tries b then
        (case attempt lib b s of
           None \<Rightarrow> None
         | Some s' \<Rightarrow> gen_loop lib b s')
      else Some s)"
  by pat_completeness auto
termination
proof (relation "measure (\<lambda>(lib, b, s). nat (max_tries b - tries s))")
  show "wf (measure (\<lambda>(lib, b, s). nat (max_tries b - tries s)))" by simp
next
  fix lib :: "'g random_lib" and b :: batch and s s' :: "'g loop_state"
  assume "int (length (results s)) < count b \<and> tries s < max_tries b"
    and "attempt lib b s = Some s'"
  moreover from this have "tries s' = tries s + 1"
    by (auto simp: attempt_def Let_def split: option.splits prod.splits if_splits)
  ultimately show "((lib, b, s'), (lib, b, s))
      \<in> measure (\<lambda>(lib, b, s). nat (max_tries b - tries s))"
    by simp
qed

declare gen_loop.simps [simp del]

text \<open>\<open>generate_emails\<close>, lines 274 to 368: the message boxes shown, in order, and the state
  of the application afterwards; \<open>None\<close> when an exception escapes.\<close>

definition generate_emails :: "'g random_lib \<Rightarrow> 'g \<Rightarrow> app \<Rightarrow> (dialog list \<times> app) option" where
  "generate_emails lib entropy a =
     (let g = rng_from_seed lib entropy (email_seed_var a) in
      case read_count (count_var a) of
        None \<Rightarrow>
          Some ([ShowError ''Invalid count''
                   ''Email count must be an integer between 1 and 200000.''], a)
      | Some n \<Rightarrow>
      let names = read_lines (names_text a);
          doms = read_lines (domains_text a)
      in
      if names = [] then
        Some ([ShowError ''No names''
                 ''Add some names or click Generate in the names section.''], a)
      else if doms = [] then
        Some ([ShowError ''No domains'' ''Please provide at least one domain.''], a)
      else
      let bad = filter (\<lambda>d. \<not> domain_ok d) doms in
      if bad \<noteq> [] then
        Some ([ShowError ''Invalid domains''
                 (''These domains look invalid:'' @ [CHR 0x0A] @ join [CHR 0x0A] bad)], a)
      else
      let pats = map fst (filter snd (pattern_vars a)) in
      if pats = [] then
        Some ([ShowError ''No patterns'' ''Enable at least one pattern.''], a)
      else
      let pool = build_name_pool names in
      if pool = [] then
        Some ([ShowError ''Invalid names''
                 (''Could not parse names. Use format like '' @ [CHR 0x22] @ ''Alex River''
                  @ [CHR 0x22] @ ''.'')], a)
      else
      case gen_loop lib
             \<lparr>count = n, unique = unique_var a, lowercase = lower_var a, name_pool = pool,
              enabled_patterns = pats, domains = doms\<rparr>
             \<lparr>rng = g, results = [], rows = [], seen = {}, tries = 0\<rparr> of
        None \<Rightarrow> None
      | Some s \<Rightarrow>
          Some ((if int (length (results s)) < n then
                   [ShowWarning ''Generated fewer than requested''
                      (''Requested '' @ str_nat (nat n) @ '', generated ''
                       @ str_nat (length (results s)) @ ''. ''
                       @ ''Try adding more names/domains, enabling more patterns, or disabling uniqueness.'')]
                 else []),
                a\<lparr>last_rows := rows s, out := join [CHR 0x0A] (results s)\<rparr>))"

section \<open>Notions of the specification\<close>

text \<open>A string has a separator run when two separator characters stand side by side; it
  starts clean when it does not begin with a separator.\<close>

fun has_sep_run :: "string \<Rightarrow> bool" where
  "has_sep_run (a # b # cs) = ((sep_char a \<and> sep_char b) \<or> has_sep_run (b # cs))"
| "has_sep_run cs = False"

definition starts_clean :: "string \<Rightarrow> bool" where
  "starts_clean s = (case s of [] \<Rightarrow> True | c # cs \<Rightarrow> \<not> sep_char c)"

text \<open>
  The sanitizer in the specification's words, to be compared with \<open>sanitize\<close>: lowercase
  if asked, keep only the characters of \<open>[a-z0-9._-]\<close>, cut the text into its maximal runs
  of separators and of other characters and put a single dot for every separator run of
  two or more, trim separators at both ends, and reject a result shorter than three
  characters.
\<close>

function runs_of :: "(char \<Rightarrow> bool) \<Rightarrow> string \<Rightarrow> string list" where
  "runs_of P [] = []"
| "runs_of P (c # cs) =
     (c # takeWhile (\<lambda>x. P x = P c) cs) # runs_of P (dropWhile (\<lambda>x. P x = P c) cs)"
  by pat_completeness auto
termination
  by (relation "measure (\<lambda>(P, s). length s)") (auto simp: length_dropWhile_le less_Suc_eq_le)

definition spec_collapse :: "string \<Rightarrow> string" where
  "spec_collapse s =
     concat (map (\<lambda>r. if sep_char (hd r) \<and> 2 \<le> length r then ''.'' else r)
               (runs_of sep_char s))"

text \<open>Trimming in the specification's words: leading separators go one by one; a
  trailing part goes when separators are all that is left.\<close>

fun spec_trim_left :: "string \<Rightarrow> string" where
  "spec_trim_left [] = []"
| "spec_trim_left (c # cs) = (if sep_char c then spec_trim_left cs else c # cs)"

fun spec_trim_right :: "string \<Rightarrow> string" where
  "spec_trim_right [] = []"
| "spec_trim_right (c # cs) = (if list_all sep_char (c # cs) then [] else c # spec_trim_right cs)"

definition spec_trim :: "string \<Rightarrow> string" where
  "spec_trim s = spec_trim_right (spec_trim_left s)"

definition spec_clean :: "bool \<Rightarrow> string \<Rightarrow> string" where
  "spec_clean lower_on u =
     spec_trim (spec_collapse (filter user_char (if lower_on then lower u else u)))"

definition spec_sanitize :: "bool \<Rightarrow> string \<Rightarrow> string option" where
  "spec_sanitize lower_on u =
     (if spec_clean lower_on u = [] \<or> length (spec_clean lower_on u) < 3 then None
      else Some (spec_clean lower_on u))"

text \<open>A generator that also keeps a log of its draws: for every \<open>_randbelow(n)\<close> the
  bound \<open>n\<close> and the number drawn, in order.\<close>

definition logged :: "'g random_lib \<Rightarrow> ('g \<times> (nat \<times> nat) list) random_lib" where
  "logged lib =
     \<lparr>seeded = (\<lambda>s. (seeded lib s, [])),
      randbelow = (\<lambda>(g, log) n. let (r, g') = randbelow lib g n in (r, (g', log @ [(n, r)])))\<rparr>"

text \<open>The keyword arguments \<open>render_pattern\<close> passes to \<open>format\<close>, for the two numbers drawn.\<close>

definition render_kw :: "string \<Rightarrow> string \<Rightarrow> nat \<Rightarrow> nat \<Rightarrow> (string \<times> string) list" where
  "render_kw first last' x2 x3 =
     [(''first'', first), (''last'', last'), (''f'', take 1 first), (''l'', take 1 last'),
      (''n2'', zero_pad 2 x2), (''n3'', zero_pad 3 x3)]"

text \<open>The state the loop starts from (lines 320 to 325), the requirements the checks
  before the loop establish, and what a row appended by a round looks like.\<close>

definition loop_start :: "'g \<Rightarrow> 'g loop_state" where
  "loop_start g = \<lparr>rng = g, results = [], rows = [], seen = {}, tries = 0\<rparr>"

definition batch_ok :: "batch \<Rightarrow> bool" where
  "batch_ok b =
     (name_pool b \<noteq> [] \<and> enabled_patterns b \<noteq> [] \<and> domains b \<noteq> [] \<and>
      list_all (\<lambda>p. p \<in> set PATTERNS) (enabled_patterns b))"

definition made_row :: "batch \<Rightarrow> row \<Rightarrow> bool" where
  "made_row b r =
     (email r = username r @ ''@'' @ domain r \<and>
      pattern r \<in> set (enabled_patterns b) \<and>
      (\<exists>d\<in>set (domains b). domain r = lower d) \<and>
      (\<exists>(full, first, last')\<in>set (name_pool b). \<exists>x2 x3 t.
          name r = full \<and> str_format (pattern r) (render_kw first last' x2 x3) = Some t \<and>
          sanitize (lowercase b) t = Some (username r)))"

definition loop_inv :: "batch \<Rightarrow> 'g loop_state \<Rightarrow> bool" where
  "loop_inv b s =
     (results s = map email (rows s) \<and> list_all (made_row b) (rows s) \<and>
      0 \<le> tries s \<and> tries s \<le> max_tries b \<and> int (length (results s)) \<le> count b \<and>
      (unique b \<longrightarrow> distinct (results s) \<and> seen s = set (results s)))"

text \<open>
  The pieces of \<open>generate_emails\<close>, named: the values the loop is run with
  (\<open>request_batch\<close>), the conjunction of the checks of lines 277 to 318
  (\<open>valid_request\<close>), the patterns being those of the check boxes \<open>_build_ui\<close> creates
  (\<open>ui_patterns\<close>), the warning of lines 358 to 363 (\<open>shortfall\<close>), and the rows a call
  stores when it shows no error box (\<open>batch_rows\<close>).
\<close>

definition request_batch :: "app \<Rightarrow> batch" where
  "request_batch a =
     \<lparr>count = (case read_count (count_var a) of Some n \<Rightarrow> n | None \<Rightarrow> 0),
      unique = unique_var a, lowercase = lower_var a,
      name_pool = build_name_pool (read_lines (names_text a)),
      enabled_patterns = map fst (filter snd (pattern_vars a)),
      domains = read_lines (domains_text a)\<rparr>"

definition valid_request :: "app \<Rightarrow> bool" where
  "valid_request a =
     (read_count (count_var a) \<noteq> None \<and>
      read_lines (names_text a) \<noteq> [] \<and>
      read_lines (domains_text a) \<noteq> [] \<and>
      list_all domain_ok (read_lines (domains_text a)) \<and>
      filter snd (pattern_vars a) \<noteq> [] \<and>
      build_name_pool (read_lines (names_text a)) \<noteq> [])"

definition ui_patterns :: "app \<Rightarrow> bool" where
  "ui_patterns a = list_all (\<lambda>pv. fst pv \<in> set PATTERNS) (pattern_vars a)"

definition shortfall :: "int \<Rightarrow> string list \<Rightarrow> dialog list" where
  "shortfall n rs =
     (if int (length rs) < n then
        [ShowWarning ''Generated fewer than requested''
           (''Requested '' @ str_nat (nat n) @ '', generated '' @ str_nat (length rs) @ ''. ''
            @ ''Try adding more names/domains, enabling more patterns, or disabling uniqueness.'')]
      else [])"

fun is_error :: "dialog \<Rightarrow> bool" where
  "is_error (ShowError t m) = True"
| "is_error (ShowWarning t m) = False"

definition batch_rows :: "'g random_lib \<Rightarrow> 'g \<Rightarrow> app \<Rightarrow> row list option" where
  "batch_rows lib entropy a =
     (case generate_emails lib entropy a of
        None \<Rightarrow> None
      | Some (ds, a') \<Rightarrow> if list_ex is_error ds then None else Some (last_rows a'))"

section \<open>Sample inputs\<close>

text \<open>A small generator for running the model: a counter, and draws that are a fixed
  function of the counter.\<close>

definition lib_demo :: "nat random_lib" where
  "lib_demo = \<lparr>seeded = length, randbelow = (\<lambda>g n. ((7 * g + 3) mod n, g + 1))\<rparr>"

text \<open>The window as \<open>_build_ui\<close> leaves it, with two names typed in and a count of 5.\<close>

definition app_demo :: app where
  "app_demo =
     \<lparr>email_seed_var = ''s1'', count_var = ''5'', unique_var = True, lower_var = True,
      pattern_vars = zip PATTERNS [True, True, True, True, True, True, False, False, False],
      names_text = ''Max Example'' @ [CHR 0x0A] @ ''Madonna'' @ [CHR 0x0A],
      domains_text = ''gmail.com'' @ [CHR 0x0A] @ ''Example.ORG'' @ [CHR 0x0A],
      last_rows = [], out = []\<rparr>"

definition app_bad_domain :: app where
  "app_bad_domain =
     app_demo\<lparr>domains_text := ''example.org'' @ [CHR 0x0A] @ ''bad domain'' @ [CHR 0x0A]\<rparr>"

text \<open>One name, one domain written in capitals, three patterns, two emails wanted; the
  same with a single pattern, which yields one address only; with a count of zero; and
  with a seed of one blank.\<close>

definition app_small :: app where
  "app_small =
     \<lparr>email_seed_var = ''s1'', count_var = ''2'', unique_var = True, lower_var = False,
      pattern_vars = zip PATTERNS [True, True, False, False, False, False, False, False, True],
      names_text = ''Max Example'',
      domains_text = ''Example.ORG'',
      last_rows = [], out = []\<rparr>"

definition app_partial :: app where
  "app_partial =
     \<lparr>email_seed_var = ''s1'', count_var = ''2'', unique_var = True, lower_var = True,
      pattern_vars = zip PATTERNS [True, False, False, False, False, False, False, False, False],
      names_text = ''Max Example'',
      domains_text = ''Example.ORG'',
      last_rows = [], out = []\<rparr>"

definition app_zero :: app where
  "app_zero = app_small\<lparr>count_var := ''0''\<rparr>"


lemmas class_defs =
  ascii_lower_def ascii_upper_def ascii_digit_def is_space_def is_linebreak_def
  domain_char_def alpha_char_def dot_char_def slug_char_def user_char_def sep_char_def
  is_digit_def

lemmas text_defs =
  lower_def lower_char_def strip_def strip_of_def normalize_name_line_def read_lines_def

section \<open>The domain check\<close>

lemma nullable_iff: "nullable r \<longleftrightarrow> [] \<in> lang r"
  by (induction r) (auto simp: conc_def intro: star.star_nil)

lemma star_cons_iff:
  "c # w \<in> star A \<longleftrightarrow> (\<exists>u v. w = u @ v \<and> c # u \<in> A \<and> v \<in> star A)"
proof
  assume "c # w \<in> star A"
  then show "\<exists>u v. w = u @ v \<and> c # u \<in> A \<and> v \<in> star A"
  proof (induction "c # w" arbitrary: w rule: star.induct)
    case (star_app x y)
    show ?case
    proof (cases x)
      case Nil
      with star_app show ?thesis by simp
    next
      case (Cons a x')
      with star_app.hyps(1,2,4) show ?thesis by auto
    qed
  qed
next
  assume "\<exists>u v. w = u @ v \<and> c # u \<in> A \<and> v \<in> star A"
  then obtain u v where "w = u @ v" "c # u \<in> A" "v \<in> star A" by blast
  then show "c # w \<in> star A"
    using star.star_app [of "c # u" A v] by simp
qed

lemma conc_cons_iff:
  "c # w \<in> conc A B \<longleftrightarrow>
     (\<exists>u v. w = u @ v \<and> c # u \<in> A \<and> v \<in> B) \<or> ([] \<in> A \<and> c # w \<in> B)"
  by (auto simp: conc_def Cons_eq_append_conv) 

lemma lang_deriv: "w \<in> lang (deriv c r) \<longleftrightarrow> c # w \<in> lang r"
proof (induction r arbitrary: w)
  case (Seq r s)
  then show ?case
    by (auto simp: conc_cons_iff nullable_iff) (auto simp: conc_def)
next
  case (Star r)
  then show ?case
    by (auto simp: star_cons_iff) (auto simp: conc_def)
qed auto

lemma fullmatch_iff: "fullmatch r s \<longleftrightarrow> s \<in> lang r"
  by (induction s arbitrary: r) (simp_all add: nullable_iff lang_deriv)

lemma star_cls: "star (lang (Cls P)) = {w. list_all P w}"
proof (rule set_eqI, rule iffI)
  fix w assume "w \<in> star (lang (Cls P))"
  then show "w \<in> {w. list_all P w}" by (induction rule: star.induct) auto
next
  fix w assume "w \<in> {w. list_all P w}"
  then have "list_all P w" by simp
  then show "w \<in> star (lang (Cls P))"
  proof (induction w)
    case Nil
    show ?case by (rule star.star_nil)
  next
    case (Cons c w)
    then have "[c] \<in> lang (Cls P)" "w \<in> star (lang (Cls P))" by auto
    then have "[c] @ w \<in> star (lang (Cls P))" by (rule star.star_app)
    then show ?case by simp
  qed
qed

lemma star_cls': "star {[c] |c. P c} = {w. list_all P w}"
  using star_cls [of P] by simp

lemma lang_Plus_Cls: "lang (Plus (Cls P)) = {w. w \<noteq> [] \<and> list_all P w}"
proof (rule set_eqI, rule iffI)
  fix w assume "w \<in> lang (Plus (Cls P))"
  then show "w \<in> {w. w \<noteq> [] \<and> list_all P w}"
    by (auto simp: Plus_def conc_def star_cls')
next
  fix w assume "w \<in> {w. w \<noteq> [] \<and> list_all P w}"
  then obtain a t where w: "w = [a] @ t" and "P a" "list_all P t"
    by (cases w) auto
  then show "w \<in> lang (Plus (Cls P))"
    unfolding Plus_def lang.simps conc_def star_cls' by blast
qed

lemma lang_AtLeast2_Cls: "lang (AtLeast2 (Cls P)) = {w. 2 \<le> length w \<and> list_all P w}"
proof (rule set_eqI, rule iffI)
  fix w assume "w \<in> lang (AtLeast2 (Cls P))"
  then show "w \<in> {w. 2 \<le> length w \<and> list_all P w}"
    by (auto simp: AtLeast2_def conc_def star_cls')
next
  fix w assume "w \<in> {w. 2 \<le> length w \<and> list_all P w}"
  then obtain a b t where w: "w = a # b # t" and "P a" "P b" "list_all P t"
    by (cases w; cases "tl w") auto
  then have "w = [a] @ ([b] @ t)" by simp
  with \<open>P a\<close> \<open>P b\<close> \<open>list_all P t\<close> show "w \<in> lang (AtLeast2 (Cls P))"
    unfolding AtLeast2_def lang.simps conc_def star_cls' by blast
qed

lemma domain_ok_iff:
  "domain_ok d \<longleftrightarrow>
     (\<exists>p t. d = p @ ''.'' @ t \<and> p \<noteq> [] \<and> list_all domain_char p
            \<and> 2 \<le> length t \<and> list_all alpha_char t)"
  unfolding domain_ok_def fullmatch_iff domain_re_def lang.simps lang_Plus_Cls lang_AtLeast2_Cls
  by (auto simp: conc_def dot_char_def)

lemma domain_ok_examples:
  "domain_ok ''example.org''" "\<not> domain_ok ''bad domain''" "\<not> domain_ok ''nodot''"
  "\<not> domain_ok ''a.b''"
  by (simp_all add: domain_ok_def domain_re_def Plus_def AtLeast2_def class_defs)

lemma bad_domain_aborts:
  assumes "d \<in> set (read_lines (domains_text a))" and "\<not> domain_ok d"
  shows "\<exists>t m. generate_emails lib e a = Some ([ShowError t m], a)"
proof -
  from assms have "filter (\<lambda>d. \<not> domain_ok d) (read_lines (domains_text a)) \<noteq> []"
    by (auto simp: filter_empty_conv)
  moreover from assms have "read_lines (domains_text a) \<noteq> []" by auto
  ultimately show ?thesis
    by (simp add: generate_emails_def Let_def split: option.split)
qed

text \<open>
  C1, as the code has it. The domain check accepts exactly the strings of the language
  of \<open>[a-zA-Z0-9.-]+\.[a-zA-Z]{2,}\<close>, that is a non-empty run of letters, digits, dots and
  hyphens, a dot, and at least two letters. \<open>example.org\<close> is accepted; \<open>bad domain\<close>,
  \<open>nodot\<close> and also \<open>a.b\<close> (one letter after the dot) are rejected. A line of the domain
  list that fails the check makes \<open>generate_emails\<close> show an error box and leave the
  application state as it was, so no row is generated.
\<close>

theorem C1_domain_validation:
  "(domain_ok d \<longleftrightarrow> d \<in> lang domain_re) \<and>
   (domain_ok d \<longleftrightarrow>
      (\<exists>p t. d = p @ ''.'' @ t \<and> p \<noteq> [] \<and> list_all domain_char p
             \<and> 2 \<le> length t \<and> list_all alpha_char t)) \<and>
   domain_ok ''example.org'' \<and> \<not> domain_ok ''bad domain'' \<and> \<not> domain_ok ''nodot'' \<and>
   \<not> domain_ok ''a.b'' \<and>
   (d \<in> set (read_lines (domains_text a)) \<and> \<not> domain_ok d \<longrightarrow>
      (\<exists>t m. generate_emails lib e a = Some ([ShowError t m], a)))"
proof (intro conjI)
  show "domain_ok d \<longleftrightarrow> d \<in> lang domain_re"
    by (simp only: domain_ok_def fullmatch_iff)
  show "domain_ok d \<longleftrightarrow>
      (\<exists>p t. d = p @ ''.'' @ t \<and> p \<noteq> [] \<and> list_all domain_char p
             \<and> 2 \<le> length t \<and> list_all alpha_char t)"
    by (rule domain_ok_iff)
  show "d \<in> set (read_lines (domains_text a)) \<and> \<not> domain_ok d \<longrightarrow>
      (\<exists>t m. generate_emails lib e a = Some ([ShowError t m], a))"
    using bad_domain_aborts [of d a lib e] by blast
qed (rule domain_ok_examples)+

theorem C1_domain_validation_witness:
  "''bad domain'' \<in> set (read_lines (domains_text app_bad_domain)) \<and>
   \<not> domain_ok ''bad domain'' \<and>
   (\<exists>t m. generate_emails lib_demo 0 app_bad_domain = Some ([ShowError t m], app_bad_domain))"
proof -
  have mem: "''bad domain'' \<in> set (read_lines (domains_text app_bad_domain))"
    by (simp add: app_bad_domain_def app_demo_def text_defs class_defs)
  have bad: "\<not> domain_ok ''bad domain''"
    by (simp add: domain_ok_def domain_re_def Plus_def AtLeast2_def class_defs)
  from mem bad C1_domain_validation [of "''bad domain''" app_bad_domain lib_demo 0]
  show ?thesis by blast
qed

text \<open>C1 as the specification words it also lists \<open>a.b\<close> among the accepted domains; the
  check rejects it.\<close>

theorem C1_a_b_counterexample: "\<not> domain_ok ''a.b''"
  by (simp add: domain_ok_def domain_re_def Plus_def AtLeast2_def class_defs)

section \<open>The sanitizer\<close>

lemma filter_dropWhile_not: "filter (\<lambda>c. \<not> P c) (dropWhile P xs) = filter (\<lambda>c. \<not> P c) xs"
  by (induction xs) auto

lemma re_sub_run_delete: "re_sub_run cls (Suc 0) [] s = filter (\<lambda>c. \<not> cls c) s"
proof (induction cls "Suc 0" "[] :: string" s rule: re_sub_run.induct)
  case (1 cls)
  show ?case by simp
next
  case (2 cls c cs)
  then show ?case by (simp add: filter_dropWhile_not)
qed

lemma user_chars_lower: "\<forall>c\<in>set (ascii_lower @ ascii_digit @ ''._-''). lower_char c = c"
  by (simp add: lower_char_def ascii_lower_def ascii_upper_def ascii_digit_def)

lemma user_char_lower: "user_char c \<Longrightarrow> lower_char c = c"
  using user_chars_lower unfolding user_char_def by blast

lemma lower_user_string: "list_all user_char s \<Longrightarrow> lower s = s"
  by (induction s) (simp_all add: lower_def user_char_lower)

lemma sep_chars_user: "\<forall>c\<in>set ''._-''. user_char c"
  by (simp add: class_defs)

lemma sep_is_user: "sep_char c \<Longrightarrow> user_char c"
  using sep_chars_user unfolding sep_char_def by blast

lemma has_sep_run_iff:
  "has_sep_run s \<longleftrightarrow> (\<exists>xs a b ys. s = xs @ a # b # ys \<and> sep_char a \<and> sep_char b)"
proof (induction s rule: has_sep_run.induct)
  case (1 a b cs)
  show ?case
  proof
    assume "has_sep_run (a # b # cs)"
    then consider "sep_char a \<and> sep_char b" | "has_sep_run (b # cs)" by auto
    then show "\<exists>xs a' b' ys. a # b # cs = xs @ a' # b' # ys \<and> sep_char a' \<and> sep_char b'"
    proof cases
      case 1
      then have "a # b # cs = [] @ a # b # cs \<and> sep_char a \<and> sep_char b" by simp
      then show ?thesis by blast
    next
      case 2
      with 1 obtain xs a' b' ys where "b # cs = xs @ a' # b' # ys" "sep_char a'" "sep_char b'"
        by blast
      then have "a # b # cs = (a # xs) @ a' # b' # ys \<and> sep_char a' \<and> sep_char b'" by simp
      then show ?thesis by blast
    qed
  next
    assume "\<exists>xs a' b' ys. a # b # cs = xs @ a' # b' # ys \<and> sep_char a' \<and> sep_char b'"
    then obtain xs a' b' ys where eq: "a # b # cs = xs @ a' # b' # ys" and s: "sep_char a'" "sep_char b'"
      by blast
    show "has_sep_run (a # b # cs)"
    proof (cases xs)
      case Nil
      with eq s show ?thesis by simp
    next
      case (Cons x xs')
      with eq have "b # cs = xs' @ a' # b' # ys" by simp
      with s have "\<exists>xs x y ys. b # cs = xs @ x # y # ys \<and> sep_char x \<and> sep_char y" by blast
      with 1 have "has_sep_run (b # cs)" by blast
      then show ?thesis by simp
    qed
  qed
qed (simp_all add: Cons_eq_append_conv)

lemma has_sep_run_rev: "has_sep_run (rev s) = has_sep_run s"
proof -
  have "has_sep_run (rev t)" if "has_sep_run t" for t
  proof -
    from that obtain xs a b ys where "t = xs @ a # b # ys" "sep_char a" "sep_char b"
      unfolding has_sep_run_iff by blast
    then have "rev t = rev ys @ b # a # rev xs \<and> sep_char b \<and> sep_char a" by simp
    then show ?thesis unfolding has_sep_run_iff by blast
  qed
  from this [of s] this [of "rev s"] show ?thesis by auto
qed

lemma has_sep_run_dropWhile: "has_sep_run (dropWhile P s) \<Longrightarrow> has_sep_run s"
proof -
  assume "has_sep_run (dropWhile P s)"
  then obtain xs a b ys where "dropWhile P s = xs @ a # b # ys" "sep_char a" "sep_char b"
    unfolding has_sep_run_iff by blast
  moreover have "s = takeWhile P s @ dropWhile P s" by simp
  ultimately have "s = (takeWhile P s @ xs) @ a # b # ys \<and> sep_char a \<and> sep_char b" by simp
  then show ?thesis unfolding has_sep_run_iff by blast
qed

lemma has_sep_run_strip_of: "has_sep_run (strip_of P s) \<Longrightarrow> has_sep_run s"
  unfolding strip_of_def has_sep_run_rev
  by (drule has_sep_run_dropWhile, simp add: has_sep_run_rev, erule has_sep_run_dropWhile)

lemma has_sep_run_Cons_clean: "starts_clean s \<Longrightarrow> has_sep_run (c # s) = has_sep_run s"
  by (cases s) (auto simp: starts_clean_def)

lemma starts_clean_dropWhile: "starts_clean (dropWhile sep_char s)"
  by (induction s) (auto simp: starts_clean_def)

lemma collapse_starts_clean:
  "starts_clean s \<Longrightarrow> starts_clean (re_sub_run sep_char 2 ''.'' s)"
  by (cases s) (auto simp: starts_clean_def)

lemma takeWhile_short: "\<not> 2 \<le> length (takeWhile P (c # cs)) \<Longrightarrow> P c \<Longrightarrow> takeWhile P (c # cs) = [c]"
  by (cases "takeWhile P cs") auto

lemma collapse_no_run: "\<not> has_sep_run (re_sub_run sep_char 2 ''.'' s)"
proof (induction sep_char "2::nat" "''.''" s rule: re_sub_run.induct)
  case 1
  show ?case by simp
next
  case (2 c cs)
  show ?case
  proof (cases "sep_char c")
    case True
    have clean: "starts_clean (re_sub_run sep_char 2 ''.'' (dropWhile sep_char cs))"
      by (rule collapse_starts_clean [OF starts_clean_dropWhile])
    show ?thesis
    proof (cases "2 \<le> length (takeWhile sep_char (c # cs))")
      case long: True
      with True 2 clean show ?thesis by (simp add: has_sep_run_Cons_clean)
    next
      case short: False
      from short True have "takeWhile sep_char (c # cs) = [c]" by (rule takeWhile_short)
      with True short 2 clean show ?thesis by (simp add: has_sep_run_Cons_clean)
    qed
  next
    case False
    with 2 show ?thesis
      by (cases "re_sub_run sep_char 2 ''.'' cs") auto
  qed
qed

lemma collapse_id: "\<not> has_sep_run s \<Longrightarrow> re_sub_run sep_char 2 ''.'' s = s"
proof (induction sep_char "2::nat" "''.''" s rule: re_sub_run.induct)
  case 1
  show ?case by simp
next
  case (2 c cs)
  show ?case
  proof (cases "sep_char c")
    case True
    with 2(4) have clean: "starts_clean cs" by (cases cs) (auto simp: starts_clean_def)
    then have tw: "takeWhile sep_char cs = []" and dw: "dropWhile sep_char cs = cs"
      by (cases cs; simp add: starts_clean_def)+
    from 2(4) have "\<not> has_sep_run cs" by (cases cs) auto
    with True tw dw 2(2) show ?thesis by simp
  next
    case False
    from 2(4) have "\<not> has_sep_run cs" by (cases cs) auto
    with False 2(3) show ?thesis by simp
  qed
qed

lemma collapse_chars: "list_all user_char s \<Longrightarrow> list_all user_char (re_sub_run sep_char 2 ''.'' s)"
proof (induction sep_char "2::nat" "''.''" s rule: re_sub_run.induct)
  case 1
  show ?case by simp
next
  case (2 c cs)
  have dot: "user_char CHR ''.''" by (simp add: class_defs)
  from 2(4) have "list_all user_char (dropWhile sep_char cs)"
    by (auto simp: list_all_iff dest: set_dropWhileD)
  moreover from 2(4) have "list_all user_char (takeWhile sep_char cs)"
    by (auto simp: list_all_iff dest: set_takeWhileD)
  ultimately show ?case using 2 dot by auto
qed

lemma strip_of_chars: "list_all P s \<Longrightarrow> list_all P (strip_of Q s)"
  by (auto simp: strip_of_def list_all_iff dest!: set_dropWhileD)

lemma strip_of_ends:
  "strip_of P s = [] \<or> (\<not> P (hd (strip_of P s)) \<and> \<not> P (last (strip_of P s)))"
proof (cases "strip_of P s = []")
  case True
  then show ?thesis by simp
next
  case False
  let ?t = "dropWhile P s"
  let ?r = "dropWhile P (rev ?t)"
  from False have r: "?r \<noteq> []" by (simp add: strip_of_def)
  have t: "?t \<noteq> []"
  proof
    assume "?t = []"
    then have "?r = []" by (simp only: rev.simps(1) dropWhile.simps(1))
    with r show False by contradiction
  qed
  have "\<not> P (hd ?r)" using r by (rule hd_dropWhile)
  then have l: "\<not> P (last (strip_of P s))" using r by (simp add: strip_of_def last_rev)
  have "rev ?t = takeWhile P (rev ?t) @ ?r" by simp
  then have "last (rev ?t) = last ?r" using r by (metis last_appendR)
  then have "hd ?t = last ?r" using t by (simp add: last_rev)
  moreover have "\<not> P (hd ?t)" using t by (rule hd_dropWhile)
  ultimately have "\<not> P (hd (strip_of P s))" using r by (simp add: strip_of_def hd_rev)
  with l show ?thesis by simp
qed

lemma strip_of_id: "s \<noteq> [] \<Longrightarrow> \<not> P (hd s) \<Longrightarrow> \<not> P (last s) \<Longrightarrow> strip_of P s = s"
proof -
  assume a: "s \<noteq> []" "\<not> P (hd s)" "\<not> P (last s)"
  then have "dropWhile P s = s" by (cases s) auto
  moreover from a have "dropWhile P (rev s) = rev s" by (cases "rev s") (auto simp: hd_rev)
  ultimately show ?thesis by (simp add: strip_of_def)
qed

lemma sanitize_result:
  assumes "sanitize lc x = Some u"
  shows "list_all user_char u" "\<not> has_sep_run u" "3 \<le> length u"
        "\<not> sep_char (hd u)" "\<not> sep_char (last u)"
proof -
  let ?u1 = "if lc then lower x else x"
  let ?u2 = "filter user_char ?u1"
  let ?u3 = "re_sub_run sep_char 2 ''.'' ?u2"
  from assms have u: "u = strip_of sep_char ?u3" and len: "3 \<le> length u"
    by (auto simp: sanitize_def Let_def re_sub_run_delete split: if_splits)
  show "3 \<le> length u" by fact
  have "list_all user_char ?u2" by (simp add: list_all_iff)
  then show "list_all user_char u" unfolding u by (intro strip_of_chars collapse_chars)
  show "\<not> has_sep_run u" unfolding u using collapse_no_run has_sep_run_strip_of by blast
  from len have "u \<noteq> []" by auto
  with strip_of_ends [of sep_char ?u3] show "\<not> sep_char (hd u)" "\<not> sep_char (last u)"
    unfolding u by auto
qed

lemma sanitize_fixed:
  assumes "list_all user_char u" "\<not> has_sep_run u" "3 \<le> length u"
        "\<not> sep_char (hd u)" "\<not> sep_char (last u)"
  shows "sanitize lc u = Some u"
proof -
  from assms(3) have ne: "u \<noteq> []" by auto
  have 1: "(if lc then lower u else u) = u" using assms(1) by (simp add: lower_user_string)
  have 2: "filter user_char u = u" using assms(1) by (simp add: list_all_iff)
  have 3: "re_sub_run sep_char 2 ''.'' u = u" using assms(2) by (rule collapse_id)
  have 4: "strip_of sep_char u = u" using ne assms(4,5) by (rule strip_of_id)
  show ?thesis using assms(3) ne
    by (simp add: sanitize_def Let_def re_sub_run_delete 1 2 3 4)
qed

lemma spec_collapse_Nil: "spec_collapse [] = []"
  by (simp add: spec_collapse_def)

lemma spec_collapse_sep:
  "sep_char c \<Longrightarrow> spec_collapse (c # cs) =
     (if 2 \<le> length (c # takeWhile sep_char cs) then ''.'' else c # takeWhile sep_char cs)
     @ spec_collapse (dropWhile sep_char cs)"
  by (simp add: spec_collapse_def)

lemma spec_collapse_other:
  "\<not> sep_char c \<Longrightarrow> spec_collapse (c # cs) =
     c # takeWhile (\<lambda>x. \<not> sep_char x) cs @ spec_collapse (dropWhile (\<lambda>x. \<not> sep_char x) cs)"
  by (simp add: spec_collapse_def)

lemma spec_collapse_skip:
  "spec_collapse cs =
     takeWhile (\<lambda>x. \<not> sep_char x) cs @ spec_collapse (dropWhile (\<lambda>x. \<not> sep_char x) cs)"
  by (cases cs) (simp_all add: spec_collapse_other)

lemma collapse_is_spec: "re_sub_run sep_char 2 ''.'' s = spec_collapse s"
proof (induction sep_char "2::nat" "''.''" s rule: re_sub_run.induct)
  case 1
  show ?case by (simp add: spec_collapse_Nil)
next
  case (2 c cs)
  show ?case
  proof (cases "sep_char c")
    case True
    with 2 show ?thesis by (simp add: spec_collapse_sep)
  next
    case False
    with 2 have "re_sub_run sep_char 2 ''.'' (c # cs) = c # spec_collapse cs" by simp
    also have "\<dots> = spec_collapse (c # cs)"
      using spec_collapse_skip [of cs] False by (simp add: spec_collapse_other)
    finally show ?thesis .
  qed
qed

lemma spec_trim_left_eq: "dropWhile sep_char s = spec_trim_left s"
  by (induction s) simp_all

lemma spec_trim_right_all: "list_all sep_char s \<Longrightarrow> spec_trim_right s = []"
  by (cases s) simp_all

lemma spec_trim_right_eq: "rev (dropWhile sep_char (rev s)) = spec_trim_right s"
proof (induction s)
  case Nil
  show ?case by simp
next
  case (Cons c cs)
  show ?case
  proof (cases "list_all sep_char cs")
    case True
    then have "\<forall>x\<in>set (rev cs). sep_char x" by (simp add: list_all_iff)
    then have "dropWhile sep_char (rev cs @ [c]) = dropWhile sep_char [c]"
      by (simp add: dropWhile_append)
    with True show ?thesis by (simp add: spec_trim_right_all)
  next
    case False
    then have "\<not> (\<forall>x\<in>set (rev cs). sep_char x)" by (simp add: list_all_iff)
    then have "dropWhile sep_char (rev cs @ [c]) = dropWhile sep_char (rev cs) @ [c]"
      by (simp add: dropWhile_append)
    with False Cons show ?thesis by simp
  qed
qed

lemma strip_of_is_spec: "strip_of sep_char s = spec_trim s"
  by (simp add: strip_of_def spec_trim_def spec_trim_left_eq [symmetric] spec_trim_right_eq)

lemma sanitize_is_spec: "sanitize lc u = spec_sanitize lc u"
  by (simp add: sanitize_def spec_sanitize_def spec_clean_def Let_def re_sub_run_delete
      collapse_is_spec strip_of_is_spec)


text \<open>
  C4. The clean-up of a rendered username is the specification's pipeline, in its order:
  optional lowercasing, removal of every character outside \<open>[a-z0-9._-]\<close>, a single dot
  for every run of two or more separators, trimming of separators at both ends. The
  candidate is rejected exactly when what remains has fewer than three characters (the
  empty string included). \<open>Mi--a..Lin\<close> with lowercasing becomes \<open>mi.a.lin\<close> (and \<open>i.a.in\<close>
  without, the capitals being stripped), \<open>@@@\<close> is rejected, the separators around
  \<open>__max.example--\<close> are trimmed away, and \<open>-ab-\<close> and \<open>.ab.\<close> are rejected because two
  characters remain after trimming.
\<close>

theorem C4_sanitizer:
  "sanitize lc u = spec_sanitize lc u \<and>
   (sanitize lc u = None \<longleftrightarrow> length (spec_clean lc u) < 3) \<and>
   sanitize True ''Mi--a..Lin'' = Some ''mi.a.lin'' \<and>
   sanitize False ''Mi--a..Lin'' = Some ''i.a.in'' \<and>
   sanitize lc ''@@@'' = None \<and>
   sanitize lc ''__max.example--'' = Some ''max.example'' \<and>
   sanitize lc ''-ab-'' = None \<and>
   sanitize lc ''.ab.'' = None \<and>
   sanitize lc ''x_-_y'' = Some ''x.y''"
proof (intro conjI)
  show "sanitize lc u = spec_sanitize lc u" by (rule sanitize_is_spec)
  show "sanitize lc u = None \<longleftrightarrow> length (spec_clean lc u) < 3"
    by (auto simp: sanitize_is_spec spec_sanitize_def)
  show "sanitize True ''Mi--a..Lin'' = Some ''mi.a.lin''"
    by (simp add: sanitize_def text_defs class_defs)
  show "sanitize False ''Mi--a..Lin'' = Some ''i.a.in''"
    by (simp add: sanitize_def text_defs class_defs)
  show "sanitize lc ''@@@'' = None"
    by (cases lc) (simp_all add: sanitize_def text_defs class_defs)
  show "sanitize lc ''__max.example--'' = Some ''max.example''"
    by (cases lc) (simp_all add: sanitize_def text_defs class_defs)
  show "sanitize lc ''-ab-'' = None"
    by (cases lc) (simp_all add: sanitize_def text_defs class_defs)
  show "sanitize lc ''.ab.'' = None"
    by (cases lc) (simp_all add: sanitize_def text_defs class_defs)
  show "sanitize lc ''x_-_y'' = Some ''x.y''"
    by (cases lc) (simp_all add: sanitize_def text_defs class_defs)
qed

text \<open>
  C10. An accepted username consists of characters of \<open>[a-z0-9._-]\<close>, has no two
  separators side by side and neither starts nor ends with a separator; running the
  clean-up on it again, with lowercasing (or without), returns it unchanged.
\<close>

theorem C10_sanitize_idempotent:
  "sanitize lc x = Some u \<Longrightarrow>
     list_all user_char u \<and> \<not> has_sep_run u \<and> \<not> sep_char (hd u) \<and> \<not> sep_char (last u) \<and>
     sanitize lc' u = Some u"
  using sanitize_result [of lc x u] sanitize_fixed [of u lc'] by blast

theorem C10_sanitize_idempotent_witness:
  "sanitize True ''Mi--a..Lin'' = Some ''mi.a.lin'' \<and>
   \<not> has_sep_run ''mi.a.lin'' \<and> sanitize True ''mi.a.lin'' = Some ''mi.a.lin''"
proof -
  have "sanitize True ''Mi--a..Lin'' = Some ''mi.a.lin''"
    by (simp add: sanitize_def text_defs class_defs)
  with C10_sanitize_idempotent [of True "''Mi--a..Lin''" "''mi.a.lin''" True]
  show ?thesis by blast
qed


section \<open>The pattern renderer\<close>

lemma render_pattern_eq:
  "render_pattern lib pat first last' g =
     map_option (\<lambda>t. (t, snd (randbelow lib (snd (randbelow lib g 100)) 1000)))
       (str_format pat (render_kw first last' (fst (randbelow lib g 100))
                          (fst (randbelow lib (snd (randbelow lib g 100)) 1000))))"
  by (simp add: render_pattern_def randint_def render_kw_def Let_def split: prod.split)

lemma patterns_format:
  "\<forall>pat\<in>set PATTERNS. str_format pat (render_kw first last' x2 x3) \<noteq> None"
  by (simp add: PATTERNS_def render_kw_def)

lemma digit_char_0: "digit_char 0 = CHR ''0''"
  by (simp add: digit_char_def ascii_digit_def)

lemma str_nat_small: "n < 10 \<Longrightarrow> str_nat n = [digit_char n]"
  by (subst str_nat.simps) simp

lemma str_nat_step: "10 \<le> n \<Longrightarrow> str_nat n = str_nat (n div 10) @ [digit_char (n mod 10)]"
  by (subst str_nat.simps) simp

lemma zero_pad_2:
  assumes "x \<le> 99"
  shows "zero_pad 2 x = [digit_char (x div 10), digit_char (x mod 10)]"
proof (cases "x < 10")
  case True
  then show ?thesis by (simp add: zero_pad_def str_nat_small digit_char_0)
next
  case False
  with assms have "x div 10 < 10" by simp
  with False show ?thesis by (simp add: zero_pad_def str_nat_step str_nat_small)
qed

lemma zero_pad_3:
  assumes "x \<le> 999"
  shows "zero_pad 3 x = [digit_char (x div 100), digit_char (x div 10 mod 10), digit_char (x mod 10)]"
proof -
  consider "x < 10" | "10 \<le> x" "x < 100" | "100 \<le> x" by linarith
  then show ?thesis
  proof cases
    case 1
    then show ?thesis
      by (simp add: zero_pad_def str_nat_small digit_char_0 numeral_3_eq_3)
  next
    case 2
    then have "x div 10 < 10" "x div 100 = 0" by simp_all
    with 2 show ?thesis
      by (simp add: zero_pad_def str_nat_step str_nat_small digit_char_0 numeral_3_eq_3)
  next
    case 3
    with assms have a: "10 \<le> x" "10 \<le> x div 10" "x div 10 div 10 < 10" by simp_all
    have "x div 10 div 10 = x div 100" by (simp add: div_mult2_eq [symmetric])
    with a show ?thesis
      by (simp add: zero_pad_def str_nat_step [of x] str_nat_step [of "x div 10"] str_nat_small)
  qed
qed

lemma logged_randbelow:
  "randbelow (logged lib) (g, log) n =
     (fst (randbelow lib g n), (snd (randbelow lib g n), log @ [(n, fst (randbelow lib g n))]))"
  by (simp add: logged_def Let_def split: prod.split)

lemma lib_demo_ok: "lib_ok lib_demo"
  by (simp add: lib_ok_def lib_demo_def)


text \<open>
  C8. For a generator that keeps the library's promise and any pattern of the program,
  one call of \<open>render_pattern\<close> makes exactly two draws: the log grows by two entries,
  first a draw below 100 (a number from 0 to 99), then a draw below 1000 (0 to 999), whatever
  the pattern is and whether or not it mentions \<open>n2\<close> or \<open>n3\<close>. The two numbers are what
  \<open>format\<close> receives, written with two and with three digits.
\<close>

theorem C8_render_draws:
  assumes "lib_ok lib" and "pat \<in> set PATTERNS"
  shows "\<exists>t x2 x3 g1 g2.
           randbelow lib g 100 = (x2, g1) \<and> randbelow lib g1 1000 = (x3, g2) \<and>
           x2 \<le> 99 \<and> x3 \<le> 999 \<and>
           render_pattern (logged lib) pat first last' (g, log)
             = Some (t, (g2, log @ [(100, x2), (1000, x3)])) \<and>
           str_format pat (render_kw first last' x2 x3) = Some t \<and>
           zero_pad 2 x2 = [digit_char (x2 div 10), digit_char (x2 mod 10)] \<and>
           zero_pad 3 x3
             = [digit_char (x3 div 100), digit_char (x3 div 10 mod 10), digit_char (x3 mod 10)]"
proof -
  obtain x2 g1 where d1: "randbelow lib g 100 = (x2, g1)" by (cases "randbelow lib g 100")
  obtain x3 g2 where d2: "randbelow lib g1 1000 = (x3, g2)" by (cases "randbelow lib g1 1000")
  have lt: "fst (randbelow lib h n) < n" if "0 < n" for h n
    using assms(1) that by (simp add: lib_ok_def)
  from lt [of 100 g] d1 have b2: "x2 \<le> 99" by simp
  from lt [of 1000 g1] d2 have b3: "x3 \<le> 999" by simp
  from assms(2) patterns_format [of first last' x2 x3]
  obtain t where t: "str_format pat (render_kw first last' x2 x3) = Some t" by blast
  have "render_pattern (logged lib) pat first last' (g, log)
          = Some (t, (g2, log @ [(100, x2), (1000, x3)]))"
    by (simp add: render_pattern_eq logged_randbelow d1 d2 t)
  with d1 d2 b2 b3 t zero_pad_2 [OF b2] zero_pad_3 [OF b3] show ?thesis by blast
qed

theorem C8_render_draws_witness:
  "lib_ok lib_demo \<and> ''{first}.{last}'' \<in> set PATTERNS \<and>
   render_pattern (logged lib_demo) ''{first}.{last}'' ''max'' ''example'' (0, [])
     = Some (''max.example'', (2, [(100, 3), (1000, 10)])) \<and>
   zero_pad 2 3 = ''03'' \<and> zero_pad 3 10 = ''010''"
proof -
  have p: "''{first}.{last}'' \<in> set PATTERNS" by (simp add: PATTERNS_def)
  have d1: "randbelow lib_demo 0 100 = (3, 1)" and d2: "randbelow lib_demo 1 1000 = (10, 2)"
    by (simp_all add: lib_demo_def)
  from C8_render_draws [OF lib_demo_ok p, of 0 "''max''" "''example''" "[]"] d1 d2
  have r: "\<exists>t. render_pattern (logged lib_demo) ''{first}.{last}'' ''max'' ''example'' (0, [])
             = Some (t, (2, [(100, 3), (1000, 10)])) \<and>
           str_format ''{first}.{last}'' (render_kw ''max'' ''example'' 3 10) = Some t"
    and z: "zero_pad 2 3 = [digit_char (3 div 10), digit_char (3 mod 10)]"
      "zero_pad 3 10 = [digit_char (10 div 100), digit_char (10 div 10 mod 10), digit_char (10 mod 10)]"
    by auto
  have f: "str_format ''{first}.{last}'' (render_kw ''max'' ''example'' 3 10) = Some ''max.example''"
    by (simp add: render_kw_def)
  from r f have "render_pattern (logged lib_demo) ''{first}.{last}'' ''max'' ''example'' (0, [])
      = Some (''max.example'', (2, [(100, 3), (1000, 10)]))" by auto
  moreover from z have "zero_pad 2 3 = ''03''" "zero_pad 3 10 = ''010''"
    by (simp_all add: digit_char_def ascii_digit_def)
  ultimately show ?thesis using lib_demo_ok p by simp
qed


section \<open>The loop\<close>

lemma choice_mem: "choice lib g xs = Some (x, g') \<Longrightarrow> x \<in> set xs"
  by (auto simp: choice_def Let_def split: if_splits prod.splits)

lemma choice_defined: "lib_ok lib \<Longrightarrow> xs \<noteq> [] \<Longrightarrow> choice lib g xs \<noteq> None"
  by (auto simp: choice_def Let_def lib_ok_def split: prod.splits) (metis fst_conv length_greater_0_conv)

lemma render_pattern_Some:
  "render_pattern lib pat first last' g = Some (t, g') \<Longrightarrow>
     \<exists>x2 x3. str_format pat (render_kw first last' x2 x3) = Some t"
  unfolding render_pattern_eq by auto

lemma render_pattern_defined:
  "pat \<in> set PATTERNS \<Longrightarrow> render_pattern lib pat first last' g \<noteq> None"
  unfolding render_pattern_eq using patterns_format by simp

lemma attempt_cases:
  assumes "attempt lib b s = Some s'"
  obtains (skip) g where "s' = s\<lparr>tries := tries s + 1, rng := g\<rparr>"
  | (add) g r where
      "made_row b r" "unique b \<longrightarrow> email r \<notin> seen s"
      "s' = s\<lparr>tries := tries s + 1, rng := g,
                seen := (if unique b then insert (email r) (seen s) else seen s),
                results := results s @ [email r], rows := rows s @ [r]\<rparr>"
proof -
  from assms obtain dn fi la g1 where c1: "choice lib (rng s) (name_pool b) = Some ((dn, fi, la), g1)"
    by (auto simp: attempt_def Let_def split: option.splits prod.splits)
  from assms c1 obtain pat g2 where c2: "choice lib g1 (enabled_patterns b) = Some (pat, g2)"
    by (auto simp: attempt_def Let_def split: option.splits prod.splits)
  from assms c1 c2 obtain t g3 where c3: "render_pattern lib pat fi la g2 = Some (t, g3)"
    by (auto simp: attempt_def Let_def split: option.splits prod.splits)
  show thesis
  proof (cases "sanitize (lowercase b) t")
    case None
    with assms c1 c2 c3 have "s' = s\<lparr>tries := tries s + 1, rng := g3\<rparr>"
      by (simp add: attempt_def Let_def)
    then show thesis by (rule skip)
  next
    case (Some uname)
    with assms c1 c2 c3 obtain d g4 where c4: "choice lib g3 (domains b) = Some (d, g4)"
      by (auto simp: attempt_def Let_def split: option.splits prod.splits)
    let ?mail = "uname @ ''@'' @ lower d"
    let ?r = "\<lparr>name = dn, email = ?mail, domain = lower d, pattern = pat, username = uname\<rparr>"
    show thesis
    proof (cases "unique b \<and> ?mail \<in> seen s")
      case True
      with assms c1 c2 c3 c4 Some have "s' = s\<lparr>tries := tries s + 1, rng := g4\<rparr>"
        by (simp add: attempt_def Let_def)
      then show thesis by (rule skip)
    next
      case False
      from render_pattern_Some [OF c3]
      obtain x2 x3 where "str_format pat (render_kw fi la x2 x3) = Some t" by blast
      with Some choice_mem [OF c1] choice_mem [OF c2] choice_mem [OF c4]
      have m: "made_row b ?r"
        unfolding made_row_def by (simp; blast)
      from False have u: "unique b \<longrightarrow> email ?r \<notin> seen s" by simp
      from False assms c1 c2 c3 c4 Some
      have "s' = s\<lparr>tries := tries s + 1, rng := g4,
                seen := (if unique b then insert (email ?r) (seen s) else seen s),
                results := results s @ [email ?r], rows := rows s @ [?r]\<rparr>"
        by (auto simp: attempt_def Let_def)
      with m u show thesis by (rule add)
    qed
  qed
qed

lemma attempt_defined:
  assumes "lib_ok lib" "batch_ok b"
  shows "attempt lib b s \<noteq> None"
proof -
  from assms obtain e g1 where c1: "choice lib (rng s) (name_pool b) = Some (e, g1)"
    using choice_defined [of lib "name_pool b" "rng s"] by (auto simp: batch_ok_def)
  obtain dn fi la where e: "e = (dn, fi, la)" by (cases e)
  from assms obtain pat g2 where c2: "choice lib g1 (enabled_patterns b) = Some (pat, g2)"
    using choice_defined [of lib "enabled_patterns b" g1] by (auto simp: batch_ok_def)
  from choice_mem [OF c2] assms(2) have "pat \<in> set PATTERNS"
    by (auto simp: batch_ok_def list_all_iff)
  then obtain t g3 where c3: "render_pattern lib pat fi la g2 = Some (t, g3)"
    using render_pattern_defined [of pat lib fi la g2] by auto
  from assms have c4: "choice lib g3 (domains b) \<noteq> None"
    using choice_defined [of lib "domains b" g3] by (auto simp: batch_ok_def)
  show ?thesis
    using c1 e c2 c3 c4 by (auto simp: attempt_def Let_def split: option.splits)
qed

lemma gen_loop_stop:
  "\<not> (int (length (results s)) < count b \<and> tries s < max_tries b) \<Longrightarrow> gen_loop lib b s = Some s"
  by (subst gen_loop.simps) auto

lemma gen_loop_step:
  "int (length (results s)) < count b \<Longrightarrow> tries s < max_tries b \<Longrightarrow>
     gen_loop lib b s = (case attempt lib b s of None \<Rightarrow> None | Some s' \<Rightarrow> gen_loop lib b s')"
  by (subst gen_loop.simps) simp

lemma gen_loop_invariant:
  assumes "gen_loop lib b s = Some s'" and "P s"
    and "\<And>s s'. P s \<Longrightarrow> int (length (results s)) < count b \<Longrightarrow> tries s < max_tries b
               \<Longrightarrow> attempt lib b s = Some s' \<Longrightarrow> P s'"
  shows "P s' \<and> \<not> (int (length (results s')) < count b \<and> tries s' < max_tries b)"
  using assms
proof (induction lib b s rule: gen_loop.induct)
  case (1 lib b s)
  note step = "1.prems"(3)
  show ?case
  proof (cases "int (length (results s)) < count b \<and> tries s < max_tries b")
    case False
    with "1.prems"(1,2) show ?thesis by (simp add: gen_loop_stop)
  next
    case True
    with "1.prems"(1) obtain s1 where a: "attempt lib b s = Some s1" and g: "gen_loop lib b s1 = Some s'"
      by (auto simp: gen_loop_step split: option.splits)
    from True have c: "int (length (results s)) < count b" "tries s < max_tries b" by auto
    have "P s1" by (rule step [OF "1.prems"(2) c a])
    then show ?thesis by (rule "1.IH" [OF True a g _ step])
  qed
qed

lemma gen_loop_defined:
  assumes "lib_ok lib" "batch_ok b"
  shows "gen_loop lib b s \<noteq> None"
  using assms
proof (induction lib b s rule: gen_loop.induct)
  case (1 lib b s)
  show ?case
  proof (cases "int (length (results s)) < count b \<and> tries s < max_tries b")
    case False
    then show ?thesis by (simp add: gen_loop_stop)
  next
    case True
    from attempt_defined [OF "1.prems"] obtain s1 where a: "attempt lib b s = Some s1" by blast
    from "1.IH" [OF True a "1.prems"] True a show ?thesis by (simp add: gen_loop_step)
  qed
qed

lemma loop_inv_start: "0 \<le> count b \<Longrightarrow> loop_inv b (loop_start g)"
  by (simp add: loop_inv_def loop_start_def max_tries_def)

lemma loop_inv_step:
  assumes "loop_inv b s" "int (length (results s)) < count b" "tries s < max_tries b"
    "attempt lib b s = Some s'"
  shows "loop_inv b s'"
  using assms(4)
proof (cases rule: attempt_cases)
  case (skip g)
  with assms(1,3) show ?thesis by (auto simp: loop_inv_def)
next
  case (add g r)
  with assms(1,2,3) show ?thesis by (auto simp: loop_inv_def)
qed

lemma gen_loop_inv:
  assumes "gen_loop lib b s = Some s'" "loop_inv b s"
  shows "loop_inv b s' \<and> \<not> (int (length (results s')) < count b \<and> tries s' < max_tries b)"
  using assms(1,2)
proof (rule gen_loop_invariant)
  fix t t' assume "loop_inv b t" "int (length (results t)) < count b" "tries t < max_tries b"
    "attempt lib b t = Some t'"
  then show "loop_inv b t'" by (rule loop_inv_step)
qed

lemma read_count_range: "read_count s = Some n \<Longrightarrow> 1 \<le> n \<and> n \<le> 200000"
  by (auto simp: read_count_def split: option.splits if_splits)

lemma generate_emails_valid:
  assumes "valid_request a"
  shows "generate_emails lib e a =
     (case gen_loop lib (request_batch a) (loop_start (rng_from_seed lib e (email_seed_var a))) of
        None \<Rightarrow> None
      | Some s \<Rightarrow>
          Some (shortfall (count (request_batch a)) (results s),
                a\<lparr>last_rows := rows s, out := join [CHR 0x0A] (results s)\<rparr>))"
proof -
  from assms obtain n where n: "read_count (count_var a) = Some n"
    by (auto simp: valid_request_def)
  from assms have "filter (\<lambda>d. \<not> domain_ok d) (read_lines (domains_text a)) = []"
    by (auto simp: valid_request_def list_all_iff filter_empty_conv)
  with assms n show ?thesis
    by (simp add: generate_emails_def valid_request_def request_batch_def loop_start_def
        shortfall_def Let_def split: option.split)
qed

lemma generate_emails_invalid:
  assumes "\<not> valid_request a"
  shows "\<exists>t m. generate_emails lib e a = Some ([ShowError t m], a)"
proof (cases "list_all domain_ok (read_lines (domains_text a))")
  case True
  then have "filter (\<lambda>d. \<not> domain_ok d) (read_lines (domains_text a)) = []"
    by (auto simp: list_all_iff filter_empty_conv)
  with assms True show ?thesis
    by (auto simp: generate_emails_def valid_request_def Let_def split: option.splits)
next
  case False
  then obtain d where "d \<in> set (read_lines (domains_text a))" "\<not> domain_ok d"
    by (auto simp: list_all_iff)
  then show ?thesis by (rule bad_domain_aborts)
qed

lemma request_batch_ok:
  assumes "valid_request a" "ui_patterns a"
  shows "batch_ok (request_batch a)" "1 \<le> count (request_batch a)" "count (request_batch a) \<le> 200000"
proof -
  from assms(1) obtain n where n: "read_count (count_var a) = Some n"
    by (auto simp: valid_request_def)
  from read_count_range [OF n] n
  show "1 \<le> count (request_batch a)" "count (request_batch a) \<le> 200000"
    by (simp_all add: request_batch_def)
  from assms show "batch_ok (request_batch a)"
    by (auto simp: batch_ok_def request_batch_def valid_request_def ui_patterns_def list_all_iff)
qed

lemma batch_rows_Some:
  assumes "batch_rows lib e a = Some rs"
  shows "valid_request a \<and>
     (\<exists>s. gen_loop lib (request_batch a) (loop_start (rng_from_seed lib e (email_seed_var a))) = Some s
          \<and> rs = rows s)"
proof (cases "valid_request a")
  case False
  from generate_emails_invalid [OF False, of lib e] assms show ?thesis
    by (auto simp: batch_rows_def)
next
  case True
  with assms show ?thesis
    by (auto simp: batch_rows_def generate_emails_valid split: option.splits if_splits)
qed

lemma batch_rows_inv:
  assumes "batch_rows lib e a = Some rs"
  shows "list_all (made_row (request_batch a)) rs"
    "int (length rs) \<le> count (request_batch a)"
    "unique_var a \<Longrightarrow> distinct (map email rs)"
proof -
  let ?b = "request_batch a"
  from batch_rows_Some [OF assms] obtain s where v: "valid_request a"
    and g: "gen_loop lib ?b (loop_start (rng_from_seed lib e (email_seed_var a))) = Some s"
    and rs: "rs = rows s" by blast
  from v obtain n where "read_count (count_var a) = Some n" by (auto simp: valid_request_def)
  with read_count_range [of "count_var a" n] have "0 \<le> count ?b" by (simp add: request_batch_def)
  from gen_loop_inv [OF g loop_inv_start [OF this]] have inv: "loop_inv ?b s" by simp
  then have r: "results s = map email (rows s)"
    and len: "int (length (results s)) \<le> count ?b"
    and d: "unique ?b \<longrightarrow> distinct (results s)"
    and m: "list_all (made_row ?b) (rows s)"
    unfolding loop_inv_def by blast+
  from m show "list_all (made_row ?b) rs" by (simp only: rs)
  from len show "int (length rs) \<le> count ?b" unfolding r rs by simp
  show "distinct (map email rs)" if "unique_var a"
    using d that unfolding r rs by (simp add: request_batch_def)
qed

lemma app_small_valid: "valid_request app_small" "ui_patterns app_small"
  by code_simp+

lemma app_partial_valid: "valid_request app_partial" "ui_patterns app_partial"
  by code_simp+


text \<open>
  C3. After the checks have passed, the loop returns: it ends in a state whose \<open>tries\<close>
  (one more with every round) is at most \<open>max_tries\<close>, the count times 10 with the unique
  flag and times 2 without; it holds at most \<open>count\<close> rows; with fewer than \<open>count\<close> rows
  all attempts have been used; the loop does nothing more once \<open>count\<close> results are
  there; and \<open>generate_emails\<close> stores the rows it has and shows the warning, not an
  error, when they are fewer than asked for.
\<close>

theorem C3_bounded_attempts:
  assumes "lib_ok lib" and "valid_request a" and "ui_patterns a"
  shows "\<exists>s. gen_loop lib (request_batch a) (loop_start (rng_from_seed lib e (email_seed_var a)))
              = Some s \<and>
           max_tries (request_batch a) = count (request_batch a) * (if unique_var a then 10 else 2) \<and>
           0 \<le> tries s \<and> tries s \<le> max_tries (request_batch a) \<and>
           length (rows s) = length (results s) \<and>
           int (length (rows s)) \<le> count (request_batch a) \<and>
           (int (length (rows s)) < count (request_batch a) \<longrightarrow> tries s = max_tries (request_batch a)) \<and>
           generate_emails lib e a
             = Some (shortfall (count (request_batch a)) (results s),
                     a\<lparr>last_rows := rows s, out := join [CHR 0x0A] (results s)\<rparr>) \<and>
           (int (length (rows s)) < count (request_batch a) \<longrightarrow>
              (\<exists>m. shortfall (count (request_batch a)) (results s)
                     = [ShowWarning ''Generated fewer than requested'' m])) \<and>
           (\<forall>t. count (request_batch a) \<le> int (length (results t)) \<longrightarrow>
                gen_loop lib (request_batch a) t = Some t) \<and>
           (\<forall>t t'. attempt lib (request_batch a) t = Some t' \<longrightarrow> tries t' = tries t + 1)"
proof -
  let ?b = "request_batch a"
  let ?s0 = "loop_start (rng_from_seed lib e (email_seed_var a))"
  note ok = request_batch_ok [OF assms(2,3)]
  from gen_loop_defined [OF assms(1) ok(1)] obtain s where g: "gen_loop lib ?b ?s0 = Some s"
    by blast
  from ok(2) have "0 \<le> count ?b" by simp
  from gen_loop_inv [OF g loop_inv_start [OF this]]
  have inv: "loop_inv ?b s"
    and stop: "\<not> (int (length (results s)) < count ?b \<and> tries s < max_tries ?b)" by simp_all
  from inv have r: "results s = map email (rows s)" and t0: "0 \<le> tries s"
    and t1: "tries s \<le> max_tries ?b" and len: "int (length (results s)) \<le> count ?b"
    unfolding loop_inv_def by blast+
  from r have l: "length (rows s) = length (results s)" by simp
  have mt: "max_tries ?b = count ?b * (if unique_var a then 10 else 2)"
    by (simp add: max_tries_def request_batch_def)
  have ge: "generate_emails lib e a
      = Some (shortfall (count ?b) (results s),
              a\<lparr>last_rows := rows s, out := join [CHR 0x0A] (results s)\<rparr>)"
    by (simp add: generate_emails_valid [OF assms(2)] g)
  have early: "\<forall>t. count ?b \<le> int (length (results t)) \<longrightarrow> gen_loop lib ?b t = Some t"
    by (simp add: gen_loop_stop)
  have step: "\<forall>t t'. attempt lib ?b t = Some t' \<longrightarrow> tries t' = tries t + 1"
    by (auto elim!: attempt_cases)
  have warn: "int (length (rows s)) < count ?b \<longrightarrow>
      (\<exists>m. shortfall (count ?b) (results s) = [ShowWarning ''Generated fewer than requested'' m])"
    by (simp add: shortfall_def l)
  from stop t1 l have ex: "int (length (rows s)) < count ?b \<longrightarrow> tries s = max_tries ?b" by auto
  from g mt t0 t1 l len ge warn early step ex show ?thesis by (intro exI [of _ s]) simp
qed

theorem C3_bounded_attempts_witness:
  "lib_ok lib_demo \<and> valid_request app_partial \<and> ui_patterns app_partial \<and>
   (\<exists>s. gen_loop lib_demo (request_batch app_partial)
            (loop_start (rng_from_seed lib_demo 0 (email_seed_var app_partial))) = Some s \<and>
        max_tries (request_batch app_partial) = 20 \<and> tries s = 20 \<and> length (rows s) = 1 \<and>
        generate_emails lib_demo 0 app_partial
          = Some ([ShowWarning ''Generated fewer than requested''
                     (''Requested 2, generated 1. '' @
                      ''Try adding more names/domains, enabling more patterns, or disabling uniqueness.'')],
                  app_partial\<lparr>last_rows := rows s, out := ''max.example@example.org''\<rparr>))"
proof -
  have run: "gen_loop lib_demo (request_batch app_partial)
            (loop_start (rng_from_seed lib_demo 0 (email_seed_var app_partial)))
     = Some \<lparr>rng = 102, results = [''max.example@example.org''],
              rows = [\<lparr>name = ''Max Example'', email = ''max.example@example.org'',
                       domain = ''example.org'', pattern = ''{first}.{last}'',
                       username = ''max.example''\<rparr>],
              seen = {''max.example@example.org''}, tries = 20\<rparr>"
    by code_simp
  have c: "count (request_batch app_partial) = 2" by code_simp
  have sf: "shortfall 2 [''max.example@example.org'']
      = [ShowWarning ''Generated fewer than requested''
                     (''Requested 2, generated 1. '' @
                      ''Try adding more names/domains, enabling more patterns, or disabling uniqueness.'')]"
    by code_simp
  from C3_bounded_attempts [OF lib_demo_ok app_partial_valid, of 0] run c sf
  show ?thesis using lib_demo_ok app_partial_valid by (simp add: app_partial_def)
qed


text \<open>
  C7. The counts \<open>0\<close>, \<open>-1\<close> and \<open>200001\<close> are rejected and \<open>200000\<close> is accepted. When any
  check fails (count, names, domains, domain syntax, patterns, parsed names),
  \<open>generate_emails\<close> shows one error box and returns the application state as it was:
  no row is generated and the rows kept from before stay. When all checks pass, no error
  box is shown and rows are stored.
\<close>

theorem C7_validation:
  "read_count ''0'' = None \<and> read_count ''-1'' = None \<and> read_count ''200001'' = None \<and>
   read_count ''200000'' = Some 200000 \<and>
   (read_count (count_var a) = None \<longrightarrow>
      (\<exists>m. generate_emails lib e a = Some ([ShowError ''Invalid count'' m], a))) \<and>
   (\<not> valid_request a \<longrightarrow>
      (\<exists>t m. generate_emails lib e a = Some ([ShowError t m], a)) \<and> batch_rows lib e a = None) \<and>
   (valid_request a \<and> lib_ok lib \<and> ui_patterns a \<longrightarrow>
      (\<exists>ds a'. generate_emails lib e a = Some (ds, a') \<and> \<not> list_ex is_error ds) \<and>
      batch_rows lib e a \<noteq> None)"
proof (intro conjI impI)
  show "read_count ''0'' = None" "read_count ''-1'' = None" "read_count ''200001'' = None"
    "read_count ''200000'' = Some 200000"
    by (simp_all add: read_count_def py_int_def int_unsigned_def max_str_digits_def
        digit_val_def is_digit_def ascii_digit_def strip_def strip_of_def is_space_def)
next
  assume "read_count (count_var a) = None"
  then show "\<exists>m. generate_emails lib e a = Some ([ShowError ''Invalid count'' m], a)"
    by (simp add: generate_emails_def)
next
  assume n: "\<not> valid_request a"
  from generate_emails_invalid [OF n, of lib e]
  show "\<exists>t m. generate_emails lib e a = Some ([ShowError t m], a)" .
  then show "batch_rows lib e a = None" by (auto simp: batch_rows_def)
next
  assume h: "valid_request a \<and> lib_ok lib \<and> ui_patterns a"
  then have v: "valid_request a" and l: "lib_ok lib" and u: "ui_patterns a" by simp_all
  from gen_loop_defined [OF l request_batch_ok(1) [OF v u]]
  obtain s where g: "gen_loop lib (request_batch a)
      (loop_start (rng_from_seed lib e (email_seed_var a))) = Some s" by blast
  have ne: "\<not> list_ex is_error (shortfall n rs)" for n rs by (simp add: shortfall_def)
  from g ne show "\<exists>ds a'. generate_emails lib e a = Some (ds, a') \<and> \<not> list_ex is_error ds"
    by (simp add: generate_emails_valid [OF v])
  from g ne show "batch_rows lib e a \<noteq> None"
    by (simp add: batch_rows_def generate_emails_valid [OF v])
qed

theorem C7_validation_witness:
  "read_count (count_var app_zero) = None \<and> \<not> valid_request app_zero \<and>
   generate_emails lib_demo 0 app_zero
     = Some ([ShowError ''Invalid count''
                ''Email count must be an integer between 1 and 200000.''], app_zero) \<and>
   batch_rows lib_demo 0 app_zero = None \<and>
   valid_request app_small \<and> lib_ok lib_demo \<and> ui_patterns app_small \<and>
   batch_rows lib_demo 0 app_small \<noteq> None"
proof -
  have z: "read_count (count_var app_zero) = None" by code_simp
  then have nv: "\<not> valid_request app_zero" by (simp add: valid_request_def)
  have g: "generate_emails lib_demo 0 app_zero
     = Some ([ShowError ''Invalid count''
                ''Email count must be an integer between 1 and 200000.''], app_zero)"
    using z by (simp add: generate_emails_def)
  from C7_validation [of app_zero lib_demo 0] nv
  have "batch_rows lib_demo 0 app_zero = None" by blast
  moreover from C7_validation [of app_small lib_demo 0] app_small_valid lib_demo_ok
  have "batch_rows lib_demo 0 app_small \<noteq> None" by blast
  ultimately show ?thesis using z nv g app_small_valid lib_demo_ok by blast
qed







section \<open>The rows\<close>

lemma zip_upper_lower_Some: "map_of (zip ascii_upper ascii_lower) c = Some d \<Longrightarrow> d \<in> set ascii_lower"
  by (drule map_of_SomeD) (rule set_zip_rightD)

lemma zip_upper_lower_None: "map_of (zip ascii_upper ascii_lower) c = None \<longleftrightarrow> c \<notin> set ascii_upper"
proof -
  have "length ascii_upper = length ascii_lower" by (simp add: ascii_upper_def ascii_lower_def)
  then have "fst ` set (zip ascii_upper ascii_lower) = set ascii_upper"
    by (metis map_fst_zip set_map)
  then show ?thesis by (simp add: map_of_eq_None_iff)
qed

lemma lower_chars_fixed: "\<forall>c\<in>set ascii_lower. lower_char c = c"
  by (simp add: lower_char_def ascii_lower_def ascii_upper_def)

lemma lower_not_upper: "\<forall>c\<in>set ascii_lower. c \<notin> set ascii_upper"
  by (simp add: ascii_lower_def ascii_upper_def)

lemma upper_codes: "\<forall>c\<in>set ascii_upper. (of_char c :: nat) \<le> 90"
  by (simp add: ascii_upper_def)

lemma lower_char_cases:
  obtains (ascii) d where "map_of (zip ascii_upper ascii_lower) c = Some d" "lower_char c = d"
      "d \<in> set ascii_lower"
  | (latin) "c \<notin> set ascii_upper" "192 \<le> (of_char c :: nat)"
      "(of_char (lower_char c) :: nat) = of_char c + 32" "(of_char c :: nat) \<le> 222"
  | (same) "c \<notin> set ascii_upper" "lower_char c = c"
      "\<not> (192 \<le> (of_char c :: nat) \<and> (of_char c :: nat) \<le> 222 \<and> (of_char c :: nat) \<noteq> 215)"
proof (cases "map_of (zip ascii_upper ascii_lower) c")
  case (Some d)
  then show thesis
    using zip_upper_lower_Some [OF Some] by (intro ascii [of d]) (simp_all add: lower_char_def)
next
  case None
  then have nu: "c \<notin> set ascii_upper" by (simp add: zip_upper_lower_None)
  show thesis
  proof (cases "192 \<le> (of_char c :: nat) \<and> (of_char c :: nat) \<le> 222 \<and> (of_char c :: nat) \<noteq> 215")
    case True
    then have "(of_char (lower_char c) :: nat) = of_char c + 32"
      using None by (simp add: lower_char_def)
    with nu True show thesis by (intro latin) simp_all
  next
    case False
    with None have "lower_char c = c" by (auto simp: lower_char_def)
    with nu show thesis using False by (rule same)
  qed
qed

lemma lower_char_not_upper: "lower_char c \<notin> set ascii_upper"
proof (cases c rule: lower_char_cases)
  case (ascii d)
  with lower_not_upper show ?thesis by auto
next
  case latin
  with upper_codes [rule_format, of "lower_char c"] show ?thesis by auto
next
  case same
  then show ?thesis by simp
qed

lemma lower_char_idem: "lower_char (lower_char c) = lower_char c"
proof -
  have "map_of (zip ascii_upper ascii_lower) (lower_char c) = None"
    using lower_char_not_upper [of c] by (simp add: zip_upper_lower_None)
  moreover have "\<not> (192 \<le> (of_char (lower_char c) :: nat) \<and> (of_char (lower_char c) :: nat) \<le> 222
      \<and> (of_char (lower_char c) :: nat) \<noteq> 215)"
  proof (cases c rule: lower_char_cases)
    case (ascii d)
    have "\<forall>x\<in>set ascii_lower. (of_char x :: nat) < 192" by (simp add: ascii_lower_def)
    with ascii show ?thesis by auto
  next
    case latin
    then show ?thesis by simp
  next
    case same
    then show ?thesis by simp
  qed
  ultimately show ?thesis
    by (subst lower_char_def [of "lower_char c"]) (simp only: option.simps if_False)
qed

lemma lower_idem: "lower (lower s) = lower s"
  by (simp add: lower_def lower_char_idem)

lemma lower_no_upper: "list_all (\<lambda>c. c \<notin> set ascii_upper) (lower s)"
  by (simp add: lower_def list_all_iff lower_char_not_upper)

lemma domain_codes: "\<forall>c\<in>set (ascii_lower @ ascii_upper @ ascii_digit @ ''.-''). (of_char c :: nat) < 192"
  by (simp add: ascii_lower_def ascii_upper_def ascii_digit_def)

lemma domain_char_lower:
  assumes "domain_char c"
  shows "domain_char (lower_char c)"
proof (cases c rule: lower_char_cases)
  case (ascii d)
  then show ?thesis by (simp add: domain_char_def)
next
  case latin
  from assms have "c \<in> set (ascii_lower @ ascii_upper @ ascii_digit @ ''.-'')"
    by (simp only: domain_char_def)
  with domain_codes have "(of_char c :: nat) < 192" by blast
  with latin(2) show ?thesis by simp
next
  case same
  with assms show ?thesis by simp
qed

lemma alpha_domain_char: "alpha_char c \<Longrightarrow> domain_char c"
  by (auto simp: alpha_char_def domain_char_def)

lemma domain_ok_chars:
  assumes "domain_ok d"
  shows "list_all domain_char d"
proof -
  from assms obtain p t where d: "d = p @ ''.'' @ t" and p: "list_all domain_char p"
    and t: "list_all alpha_char t"
    unfolding domain_ok_iff by blast
  have dot: "domain_char CHR ''.''" by (simp add: class_defs)
  from t have "list_all domain_char t" by (simp add: list_all_iff alpha_domain_char)
  with p dot show ?thesis by (simp add: d)
qed

lemma at_not_domain_char: "\<not> domain_char CHR ''@''"
  by (simp add: class_defs)

lemma at_not_user_char: "\<not> user_char CHR ''@''"
  by (simp add: class_defs)

lemma domain_ok_no_at: "domain_ok d \<Longrightarrow> CHR ''@'' \<notin> set d"
  using domain_ok_chars [of d] at_not_domain_char by (auto simp: list_all_iff)

lemma lower_domain_no_at:
  assumes "domain_ok d"
  shows "CHR ''@'' \<notin> set (lower d)"
proof
  assume "CHR ''@'' \<in> set (lower d)"
  then obtain c where c: "c \<in> set d" and eq: "lower_char c = CHR ''@''"
    by (auto simp: lower_def)
  from domain_ok_chars [OF assms] c have "domain_char c" by (simp add: list_all_iff)
  then have "domain_char (lower_char c)" by (rule domain_char_lower)
  with eq at_not_domain_char show False by simp
qed

lemma user_chars_no_at: "list_all user_char u \<Longrightarrow> CHR ''@'' \<notin> set u"
  using at_not_user_char by (auto simp: list_all_iff)

lemma made_row_email: "made_row b r \<Longrightarrow> email r = username r @ ''@'' @ domain r"
  by (simp add: made_row_def)

lemma made_row_domain: "made_row b r \<Longrightarrow> \<exists>d\<in>set (domains b). domain r = lower d"
  by (simp add: made_row_def)

lemma made_row_username: "made_row b r \<Longrightarrow> \<exists>t. sanitize (lowercase b) t = Some (username r)"
  by (auto simp: made_row_def)


text \<open>
  C6. In every row a call stores, the email is the username, an \<open>@\<close> and the domain, and
  the domain is in lower case (lowering it again changes nothing, and it has no capital
  letter), whatever the lowercase flag and the spelling of the domain lines.
\<close>

theorem C6_email_roundtrip:
  assumes "batch_rows lib e a = Some rs" and "r \<in> set rs"
  shows "email r = username r @ ''@'' @ domain r \<and> lower (domain r) = domain r \<and>
         list_all (\<lambda>c. c \<notin> set ascii_upper) (domain r)"
proof -
  from batch_rows_inv(1) [OF assms(1)] assms(2) have m: "made_row (request_batch a) r"
    by (simp add: list_all_iff)
  from made_row_domain [OF m] obtain d where "domain r = lower d" by blast
  with made_row_email [OF m] lower_idem [of d] lower_no_upper [of d] show ?thesis by simp
qed

theorem C6_email_roundtrip_witness:
  "batch_rows lib_demo 0 app_small =
     Some [\<lparr>name = ''Max Example'', email = ''max.example@example.org'',
            domain = ''example.org'', pattern = ''{first}.{last}'', username = ''max.example''\<rparr>,
           \<lparr>name = ''Max Example'', email = ''maxexample073@example.org'',
            domain = ''example.org'', pattern = ''{first}{last}{n3}'',
            username = ''maxexample073''\<rparr>] \<and>
   lower ''example.org'' = ''example.org'' \<and>
   list_all (\<lambda>c. c \<notin> set ascii_upper) ''example.org''"
proof -
  let ?r = "\<lparr>name = ''Max Example'', email = ''max.example@example.org'',
            domain = ''example.org'', pattern = ''{first}.{last}'', username = ''max.example''\<rparr>"
  let ?rs = "[?r, \<lparr>name = ''Max Example'', email = ''maxexample073@example.org'',
            domain = ''example.org'', pattern = ''{first}{last}{n3}'',
            username = ''maxexample073''\<rparr>]"
  have run: "batch_rows lib_demo 0 app_small = Some ?rs" by code_simp
  have "?r \<in> set ?rs" by simp
  from C6_email_roundtrip [OF run this] run show ?thesis by simp
qed


text \<open>
  C9. A domain that passes the check has no \<open>@\<close>, an accepted username consists of
  characters of \<open>[a-z0-9._-]\<close> and so has none, and every email a call stores has exactly
  one.
\<close>

theorem C9_single_at:
  "(domain_ok d \<longrightarrow> CHR ''@'' \<notin> set d) \<and>
   (sanitize lc x = Some u \<longrightarrow> list_all user_char u \<and> CHR ''@'' \<notin> set u) \<and>
   (batch_rows lib e a = Some rs \<and> r \<in> set rs \<longrightarrow>
      count_list (email r) (CHR ''@'') = 1 \<and>
      CHR ''@'' \<notin> set (username r) \<and> CHR ''@'' \<notin> set (domain r))"
proof (intro conjI impI)
  assume "domain_ok d"
  then show "CHR ''@'' \<notin> set d" by (rule domain_ok_no_at)
next
  assume s: "sanitize lc x = Some u"
  then show "list_all user_char u" by (rule sanitize_result(1))
  then show "CHR ''@'' \<notin> set u" by (rule user_chars_no_at)
next
  assume h: "batch_rows lib e a = Some rs \<and> r \<in> set rs"
  let ?b = "request_batch a"
  from h batch_rows_inv(1) [of lib e a rs] have m: "made_row ?b r" by (simp add: list_all_iff)
  from h batch_rows_Some [of lib e a rs] have "valid_request a" by blast
  then have ok: "list_all domain_ok (domains ?b)" by (simp add: valid_request_def request_batch_def)
  from made_row_domain [OF m] obtain d' where d': "d' \<in> set (domains ?b)" "domain r = lower d'"
    by blast
  with ok have "domain_ok d'" by (simp add: list_all_iff)
  then have dn: "CHR ''@'' \<notin> set (domain r)" unfolding d'(2) by (rule lower_domain_no_at)
  from made_row_username [OF m] obtain t where "sanitize (lowercase ?b) t = Some (username r)"
    by blast
  then have "list_all user_char (username r)" by (rule sanitize_result(1))
  then have un: "CHR ''@'' \<notin> set (username r)" by (rule user_chars_no_at)
  from un dn made_row_email [OF m]
  show "count_list (email r) (CHR ''@'') = 1" by simp
  from un show "CHR ''@'' \<notin> set (username r)" .
  from dn show "CHR ''@'' \<notin> set (domain r)" .
qed

theorem C9_single_at_witness:
  "domain_ok ''example.org'' \<and> CHR ''@'' \<notin> set ''example.org'' \<and>
   sanitize True ''Mi--a..Lin'' = Some ''mi.a.lin'' \<and> CHR ''@'' \<notin> set ''mi.a.lin'' \<and>
   batch_rows lib_demo 0 app_small =
     Some [\<lparr>name = ''Max Example'', email = ''max.example@example.org'',
            domain = ''example.org'', pattern = ''{first}.{last}'', username = ''max.example''\<rparr>,
           \<lparr>name = ''Max Example'', email = ''maxexample073@example.org'',
            domain = ''example.org'', pattern = ''{first}{last}{n3}'',
            username = ''maxexample073''\<rparr>] \<and>
   count_list ''max.example@example.org'' (CHR ''@'') = 1"
proof -
  let ?r = "\<lparr>name = ''Max Example'', email = ''max.example@example.org'',
            domain = ''example.org'', pattern = ''{first}.{last}'', username = ''max.example''\<rparr>"
  let ?rs = "[?r, \<lparr>name = ''Max Example'', email = ''maxexample073@example.org'',
            domain = ''example.org'', pattern = ''{first}{last}{n3}'',
            username = ''maxexample073''\<rparr>]"
  have run: "batch_rows lib_demo 0 app_small = Some ?rs" by code_simp
  have d: "domain_ok ''example.org''"
    by (simp add: domain_ok_def domain_re_def Plus_def AtLeast2_def class_defs)
  have s: "sanitize True ''Mi--a..Lin'' = Some ''mi.a.lin''"
    by (simp add: sanitize_def text_defs class_defs)
  have m: "?r \<in> set ?rs" by simp
  from C9_single_at [of "''example.org''" True "''Mi--a..Lin''" "''mi.a.lin''" lib_demo 0 app_small ?rs ?r]
    run d s m
  show ?thesis by simp
qed


end
